theory Spec2Isabelle
  imports Main "HOL-Library.Word" "HOL-Library.Multiset" "HOL-Library.Sublist"
begin

section \<open>TachyFont: the incremental font manager (incrementalfont.js)\<close>

text \<open>
  A shallow embedding of \<^verbatim>\<open>tachyfont.IncrementalFont\<close>. A JavaScript string is the
  list of its UTF-16 code units; a "character" of the char list is such a string of one
  unit, or of two for a surrogate pair. Codepoints are the non-negative integers the
  source computes with. An object used as a map from characters to numbers
  (\<^verbatim>\<open>Object<string, number>\<close>) is a partial function.
\<close>

subsection \<open>Characters and codepoints\<close>

type_synonym jsstring = "16 word list"
type_synonym charlist = "jsstring \<rightharpoonup> nat"

text \<open>
  \<^verbatim>\<open>tachyfont.charToCode\<close>. \<^verbatim>\<open>charCodeAt\<close> past the end of the string is NaN, and
  so is the result then: \<open>None\<close>. The pair's value is computed over the integers, as
  the source does (\<^verbatim>\<open>low\<close> is negative when the second unit is no low surrogate); the
  sum is at least 0x2400, so reading it as a natural number loses nothing.
\<close>

definition charToCode :: "jsstring \<Rightarrow> nat option" where
  "charToCode inputChar =
     (case inputChar of
        [] \<Rightarrow> None
      | cc # rest \<Rightarrow>
          if 0xD800 \<le> unat cc \<and> unat cc \<le> 0xDBFF then
            (case rest of
               [] \<Rightarrow> None
             | lo # _ \<Rightarrow>
                 let high = (int (unat cc) - 0xD800) * 1024;
                     low = int (unat lo) - 0xDC00;
                     codepoint = high + low + 0x10000
                 in Some (nat codepoint))
          else Some (unat cc))"

text \<open>
  Modelled from the spec: \<^verbatim>\<open>tachyfont.utils.stringFromCodePoint\<close> is not among the
  source files. The spec's data model represents a codepoint "as its source character,
  correctly pairing surrogate halves": one code unit up to 0xFFFF, a high and a low
  surrogate above.
\<close>

definition stringFromCodePoint :: "nat \<Rightarrow> jsstring" where
  "stringFromCodePoint codePoint =
     (if codePoint \<le> 0xFFFF then [of_nat codePoint]
      else let c = codePoint - 0x10000
           in [of_nat (c div 1024 + 0xD800), of_nat (c mod 1024 + 0xDC00)])"

text \<open>A character as the spec's data model has it: a single codepoint's string.\<close>

definition isChar :: "jsstring \<Rightarrow> bool" where
  "isChar c =
     (case c of
        [u] \<Rightarrow> \<not> (0xD800 \<le> unat u \<and> unat u \<le> 0xDBFF)
      | [h, l] \<Rightarrow> (0xD800 \<le> unat h \<and> unat h \<le> 0xDBFF) \<and> (0xDC00 \<le> unat l \<and> unat l \<le> 0xDFFF)
      | _ \<Rightarrow> False)"

text \<open>
  Modelled from the spec: \<^verbatim>\<open>tachyfont.SparseBitArray\<close> is not among the source files.
  It is the spec's "sparse boolean set over the Unicode codepoint space"; NaN is no
  codepoint, so \<^verbatim>\<open>isSet(NaN)\<close> is false.
\<close>

type_synonym sparseBitArray = "nat set"

definition isSet :: "sparseBitArray \<Rightarrow> nat \<Rightarrow> bool" where
  "isSet bits codepoint = (codepoint \<in> bits)"

definition setBit :: "sparseBitArray \<Rightarrow> nat \<Rightarrow> sparseBitArray" where
  "setBit bits codepoint = insert codepoint bits"

subsection \<open>Objects keyed by integers\<close>

text \<open>
  \<^verbatim>\<open>code_map\<close> of \<^verbatim>\<open>possibly_obfuscate\<close> is an object whose keys are codepoints and
  whose value at a key is the key. It is modelled by the list of its keys in the order
  of their first assignment. \<^verbatim>\<open>Object.keys\<close> lists the keys that are array indices
  (below \<open>2^32 - 1\<close>, which every codepoint is) in ascending order first, then the
  others in the order of assignment.
\<close>

definition setKey :: "nat \<Rightarrow> nat list \<Rightarrow> nat list" where
  "setKey k ks = (if k \<in> set ks then ks else ks @ [k])"

definition isArrayIndex :: "nat \<Rightarrow> bool" where
  "isArrayIndex k = (k < 2 ^ 32 - 1)"

definition objectKeys :: "nat list \<Rightarrow> nat list" where
  "objectKeys ks = sort (filter isArrayIndex ks) @ filter (\<lambda>k. \<not> isArrayIndex k) ks"

subsection \<open>Obfuscation\<close>

definition MINIMUM_NON_OBFUSCATION_LENGTH :: nat where
  "MINIMUM_NON_OBFUSCATION_LENGTH = 20"

definition OBFUSCATION_RANGE :: int where
  "OBFUSCATION_RANGE = 256"

text \<open>
  \<^verbatim>\<open>Math.floor(goog.math.uniformRandom(bottom, top + 1))\<close>: an integer of
  \<open>bottom .. top\<close>, each of them possible. The random source is a sequence of natural
  numbers, one per try; the draw \<open>r\<close> selects the integer \<open>bottom + r mod (top + 1 - bottom)\<close>.
\<close>

definition floorUniformRandom :: "nat \<Rightarrow> int \<Rightarrow> int \<Rightarrow> nat" where
  "floorUniformRandom r bottom top1 = nat (bottom + int (r mod nat (top1 - bottom)))"

text \<open>
  One try of the second loop of \<^verbatim>\<open>possibly_obfuscate\<close>: the loop's body at try
  \<open>i\<close>, with the random draw \<open>r\<close> of this try. The state is the pair of the keys of
  \<^verbatim>\<open>code_map\<close> and the object \<^verbatim>\<open>alreadyRequestedChars\<close>, which the body assigns
  to. With no codes, \<^verbatim>\<open>codes[i % 0]\<close> is undefined, the candidate is NaN, which is
  not set in the bit array: the try is skipped (\<^verbatim>\<open>continue\<close>).
\<close>

definition obfuscate_try ::
  "nat list \<Rightarrow> sparseBitArray \<Rightarrow> nat \<Rightarrow> nat \<Rightarrow> nat list \<times> charlist \<Rightarrow> nat list \<times> charlist" where
  "obfuscate_try codes loadableCodepoints r i st =
     (let code_map = fst st; alreadyRequestedChars = snd st
      in if codes = [] then (code_map, alreadyRequestedChars)
         else
           let code = codes ! (i mod length codes);
               bottom = int code - OBFUSCATION_RANGE div 2;
               bottom = (if bottom < 0 then 0 else bottom);
               top = int code + OBFUSCATION_RANGE div 2;
               newCode = floorUniformRandom r bottom (top + 1)
           in if \<not> isSet loadableCodepoints newCode then (code_map, alreadyRequestedChars)
              else
                let newChar = stringFromCodePoint newCode
                in if alreadyRequestedChars newChar = None then
                     (setKey newCode code_map, alreadyRequestedChars(newChar \<mapsto> 1))
                   else (code_map, alreadyRequestedChars))"

text \<open>
  The loop itself, from try \<open>i\<close> on:
  \<^verbatim>\<open>for (i = 0; Object.keys(code_map).length < target_length && i < max_tries; i++)\<close>.
\<close>

function obfuscate_loop ::
  "nat list \<Rightarrow> sparseBitArray \<Rightarrow> (nat \<Rightarrow> nat) \<Rightarrow> nat \<Rightarrow> nat \<Rightarrow> nat \<Rightarrow> nat list \<times> charlist
     \<Rightarrow> nat list \<times> charlist" where
  "obfuscate_loop codes loadableCodepoints rnd target_length max_tries i st =
     (if length (objectKeys (fst st)) < target_length \<and> i < max_tries then
        obfuscate_loop codes loadableCodepoints rnd target_length max_tries (i + 1)
          (obfuscate_try codes loadableCodepoints (rnd i) i st)
      else st)"
  by pat_completeness auto
termination
  by (relation "measure (\<lambda>(codes, l, rnd, t, max_tries, i, st). max_tries - i)") auto

declare obfuscate_loop.simps [simp del]

text \<open>
  \<^verbatim>\<open>tachyfont.IncrementalFont.possibly_obfuscate\<close>. The flag
  \<^verbatim>\<open>tachyfont.utils.noObfuscate\<close> and the random source are parameters; the result is
  the returned array together with \<^verbatim>\<open>alreadyRequestedChars\<close> as the call leaves it.
\<close>

definition possibly_obfuscate ::
  "bool \<Rightarrow> (nat \<Rightarrow> nat) \<Rightarrow> nat list \<Rightarrow> charlist \<Rightarrow> sparseBitArray \<Rightarrow> nat list \<times> charlist" where
  "possibly_obfuscate noObfuscate rnd codes alreadyRequestedChars loadableCodepoints =
     (if noObfuscate then (codes, alreadyRequestedChars)
      else if length codes \<ge> MINIMUM_NON_OBFUSCATION_LENGTH then (codes, alreadyRequestedChars)
      else
        let code_map = foldl (\<lambda>m code. setKey code m) [] codes;
            num_new_codes = MINIMUM_NON_OBFUSCATION_LENGTH - length codes;
            target_length = MINIMUM_NON_OBFUSCATION_LENGTH;
            max_tries = num_new_codes * 10 + 100;
            (code_map', alreadyRequestedChars') =
               obfuscate_loop codes loadableCodepoints rnd target_length max_tries 0
                 (code_map, alreadyRequestedChars)
        in (objectKeys code_map', alreadyRequestedChars'))"

subsection \<open>Promises, the manager's state and its collaborators\<close>

text \<open>
  A promise chain is run as a function of the state: it returns how the chain's promise
  settles (or that it stays pending) and the state it leaves. A reason of rejection is a
  message of the source, the reason a collaborator gave, no reason at all
  (\<^verbatim>\<open>reject()\<close>), or an exception thrown inside a callback (which rejects the
  callback's promise).
\<close>

datatype err =
    NoReason
  | Message string
  | Failure nat
  | TypeError
  | AssertionError

datatype 'a outcome = Resolved 'a | Rejected err | Pending

text \<open>
  What happens outside the manager is kept in a trace: reports and logs sent to
  \<^verbatim>\<open>tachyfont.Reporter\<close>, calls of the collaborators (backend service, persistent store,
  binary transform, browser), a call's rejection, a timer set, the release of the
  serializer's lock.
\<close>

datatype collab =
    PrecedingPromise
  | RequestCodepoints "nat list"
  | RequestFontBase
  | DeleteDatabase
  | OpenIndexedDb
  | GetStores
  | PutStores
  | ClearDataStores
  | InjectChars "nat list"
  | SetFont

datatype event =
    Report string
  | Log string
  | Call collab
  | Fault collab
  | SetTimeout
  | ReleaseLock

record fileInfo =
  cmapMapping :: "nat list"
  fi_isTtf :: bool
  fi_sha1_fingerprint :: string

text \<open>
  The values of the four compact stores of a font's database, and the database: absent,
  with its stores emptied, or holding values.
\<close>

record storeValues =
  storedFontBytes :: "nat list"
  storedFileInfo :: fileInfo
  storedCharList :: charlist
  storedMetadata :: nat

datatype database = NoDatabase | EmptyStores | Stores storeValues

record fontTableData =
  sfntFontData :: "nat list"
  tableFileInfo :: fileInfo
  tableCharList :: charlist
  tableMetadata :: nat

record compactFontWorkingData =
  fontBytes :: "nat list"
  charList :: charlist
  workingFileInfo :: fileInfo

record bundleResponse =
  glyphCount :: nat
  signature :: string

text \<open>What the manager reads of the \<^verbatim>\<open>CompactCff\<close> that \<^verbatim>\<open>injectChars\<close> resolves with.\<close>

record compactCff =
  cffFontData :: "nat list"
  cffTables2 :: "charlist option"

text \<open>
  The fields of \<^verbatim>\<open>tachyfont.IncrementalFont.obj\<close> that the modelled methods use, the
  local variable \<^verbatim>\<open>neededCodes\<close> of the running \<^verbatim>\<open>loadChars\<close>, the font's database
  in the persistent store and the trace.
  \<^verbatim>\<open>charsToLoad_\<close> is listed in the order \<^verbatim>\<open>Object.keys\<close> gives its keys.
\<close>

record state =
  refetchedCompact :: bool
  needToSetFont :: bool
  haveReadFileInfo :: bool
  isTtf :: bool
  sha1_fingerprint :: string
  loadableCodepoints :: sparseBitArray
  charsToLoad :: "(jsstring \<times> nat) list"
  maximumRequestSize :: nat
  compactCharList :: "charlist outcome"
  blobUrl :: "string option"
  neededCodes :: "nat list"
  db :: database
  trace :: "event list"

text \<open>
  The collaborators are parameters: each call's result is a function of the moment of
  the call (the length of the trace), so a collaborator may answer each call
  differently. A collaborator's promise settles; only the manager's own char list
  promise can be pending. \<open>decodeAndCompact\<close> stands for the synchronous binary
  transform of \<^verbatim>\<open>processFontbase\<close> (\<^verbatim>\<open>processUrlBase\<close>, \<^verbatim>\<open>Sfnt.getFont\<close>,
  \<^verbatim>\<open>CompactCff.compact\<close>), whose code is not among the source files: it gives the
  compacted font's bytes and file info, or throws.
\<close>

record collaborators =
  noObfuscate :: bool
  enableAsserts :: bool
  mathRandom :: "nat \<Rightarrow> nat \<Rightarrow> nat"
  precedingPromise :: "nat \<Rightarrow> err + unit"
  requestCodepoints :: "nat \<Rightarrow> nat list \<Rightarrow> err + bundleResponse option"
  requestFontBase :: "nat \<Rightarrow> err + nat list"
  deleteDatabase :: "nat \<Rightarrow> err + unit"
  openIndexedDb :: "nat \<Rightarrow> err + unit"
  getStores :: "nat \<Rightarrow> err + unit"
  putStores :: "nat \<Rightarrow> err + unit"
  clearDataStores :: "nat \<Rightarrow> err + unit"
  injectChars :: "nat \<Rightarrow> nat list \<Rightarrow> bundleResponse \<Rightarrow> err + compactCff"
  setFont :: "nat \<Rightarrow> err + string"
  decodeAndCompact :: "nat list \<Rightarrow> err + (nat list \<times> fileInfo)"

type_synonym 'a promise = "state \<Rightarrow> 'a outcome \<times> state"

definition resolve :: "'a \<Rightarrow> 'a promise" where
  "resolve v s = (Resolved v, s)"

definition reject :: "err \<Rightarrow> 'a promise" where
  "reject e s = (Rejected e, s)"

text \<open>\<^verbatim>\<open>p.then(f)\<close>, \<^verbatim>\<open>p.then(f, g)\<close>, \<^verbatim>\<open>p.thenCatch(g)\<close> and \<^verbatim>\<open>p.thenAlways(c)\<close>.\<close>

definition thenP :: "'a promise \<Rightarrow> ('a \<Rightarrow> 'b promise) \<Rightarrow> 'b promise" where
  "thenP p f s =
     (case p s of
        (Resolved v, s') \<Rightarrow> f v s'
      | (Rejected e, s') \<Rightarrow> (Rejected e, s')
      | (Pending, s') \<Rightarrow> (Pending, s'))"

definition thenBoth :: "'a promise \<Rightarrow> ('a \<Rightarrow> 'b promise) \<Rightarrow> (err \<Rightarrow> 'b promise) \<Rightarrow> 'b promise" where
  "thenBoth p f g s =
     (case p s of
        (Resolved v, s') \<Rightarrow> f v s'
      | (Rejected e, s') \<Rightarrow> g e s'
      | (Pending, s') \<Rightarrow> (Pending, s'))"

definition thenCatch :: "'a promise \<Rightarrow> (err \<Rightarrow> 'a promise) \<Rightarrow> 'a promise" where
  "thenCatch p g s =
     (case p s of
        (Resolved v, s') \<Rightarrow> (Resolved v, s')
      | (Rejected e, s') \<Rightarrow> g e s'
      | (Pending, s') \<Rightarrow> (Pending, s'))"


text \<open>The value of a promise that the chain does not read (\<^verbatim>\<open>undefined\<close> stands for it).\<close>

definition ignoreValue :: "'a promise \<Rightarrow> unit promise" where
  "ignoreValue p s =
     (case p s of
        (Resolved v, s') \<Rightarrow> (Resolved (), s')
      | (Rejected e, s') \<Rightarrow> (Rejected e, s')
      | (Pending, s') \<Rightarrow> (Pending, s'))"

definition emit :: "event \<Rightarrow> state \<Rightarrow> state" where
  "emit ev s = s\<lparr>trace := trace s @ [ev]\<rparr>"

definition tick :: "state \<Rightarrow> nat" where
  "tick s = length (trace s)"

text \<open>A collaborator's call: the call is traced, and its rejection is.\<close>

definition call :: "collab \<Rightarrow> err + 'a \<Rightarrow> 'a promise" where
  "call c answer s =
     (case answer of
        Inr v \<Rightarrow> (Resolved v, emit (Call c) s)
      | Inl e \<Rightarrow> (Rejected e, emit (Fault c) (emit (Call c) s)))"

text \<open>
  \<^verbatim>\<open>tachyfont.IncrementalFont.reportError\<close> and \<^verbatim>\<open>tachyfont.Reporter.addLog\<close>: the error
  number is sent with the file's id \<^verbatim>\<open>EIF\<close> in front.
\<close>

definition reportError :: "string \<Rightarrow> state \<Rightarrow> state" where
  "reportError errNum s = emit (Report (''EIF'' @ errNum)) s"

definition addLog :: "string \<Rightarrow> state \<Rightarrow> state" where
  "addLog logId s = emit (Log logId) s"

definition FINGERPRINT_MISMATCH :: string where "FINGERPRINT_MISMATCH = ''42''"
definition DELETE_IDB :: string where "DELETE_IDB = ''44''"
definition INJECT_FONT_COMPACT :: string where "INJECT_FONT_COMPACT = ''49''"
definition INJECT_COMPACT :: string where "INJECT_COMPACT = ''51''"
definition SAVE_NEW_COMPACT :: string where "SAVE_NEW_COMPACT = ''57''"
definition INJECT_FONT_INJECT_CHARS :: string where "INJECT_FONT_INJECT_CHARS = ''59''"
definition REJECTED_GET_COMPACT_CHARLIST :: string where "REJECTED_GET_COMPACT_CHARLIST = ''63''"
definition CALC_NEEDED_CHARS :: string where "CALC_NEEDED_CHARS = ''68''"
definition URL_GET_BASE :: string where "URL_GET_BASE = ''LIFUB''"
definition MISS_COUNT :: string where "MISS_COUNT = ''LIFMC''"
definition MISS_RATE :: string where "MISS_RATE = ''LIFMR''"

text \<open>
  \<^verbatim>\<open>goog.asserts.assert(this.haveReadFileInfo_)\<close> throws when assertions are enabled
  and the file info has not been read.
\<close>

definition assertFails :: "collaborators \<Rightarrow> state \<Rightarrow> bool" where
  "assertFails env s = (enableAsserts env \<and> \<not> haveReadFileInfo s)"

text \<open>
  Modelled from the spec: \<^verbatim>\<open>tachyfont.Promise.Encapsulated\<close> is not among the source
  files. It holds one promise, which settles once: \<^verbatim>\<open>resolve\<close> on a settled promise
  changes nothing.
\<close>

definition encapsulatedResolve :: "'a \<Rightarrow> 'a outcome \<Rightarrow> 'a outcome" where
  "encapsulatedResolve v p = (case p of Pending \<Rightarrow> Resolved v | _ \<Rightarrow> p)"

definition getCompactCharList :: "charlist promise" where
  "getCompactCharList s = (compactCharList s, s)"

text \<open>
  The constructor's \<^verbatim>\<open>this.maximumRequestSize_ = params['req_size'] || 2200\<close>:
  an absent or zero parameter gives 2200.
\<close>

definition initialMaximumRequestSize :: "nat option \<Rightarrow> nat" where
  "initialMaximumRequestSize req_size =
     (case req_size of None \<Rightarrow> 2200 | Some n \<Rightarrow> if n = 0 then 2200 else n)"

text \<open>
  The constructor \<^verbatim>\<open>tachyfont.IncrementalFont.obj\<close>, for the parameter
  \<^verbatim>\<open>params['req_size']\<close>, the blob URL the launcher had set (if any) and the database
  that the persistent store holds at that moment; and \<^verbatim>\<open>setFileInfo\<close>, which sets the
  bit of every codepoint of the file info's \<^verbatim>\<open>cmapMapping\<close>.
  \<^verbatim>\<open>needToSetFont_ = !this.blobUrl_\<close> is true for no URL and for the empty string.
\<close>

definition newObj :: "nat option \<Rightarrow> string option \<Rightarrow> database \<Rightarrow> state" where
  "newObj req_size launcherUrl database =
     \<lparr>refetchedCompact = False,
      needToSetFont = (case launcherUrl of None \<Rightarrow> True | Some url \<Rightarrow> url = []),
      haveReadFileInfo = False,
      isTtf = False,
      sha1_fingerprint = [],
      loadableCodepoints = {},
      charsToLoad = [],
      maximumRequestSize = initialMaximumRequestSize req_size,
      compactCharList = Pending,
      blobUrl = launcherUrl,
      neededCodes = [],
      db = database,
      trace = []\<rparr>"

definition setFileInfo :: "fileInfo \<Rightarrow> state \<Rightarrow> state" where
  "setFileInfo info s =
     s\<lparr>loadableCodepoints := foldl setBit (loadableCodepoints s) (cmapMapping info),
       isTtf := fi_isTtf info,
       sha1_fingerprint := fi_sha1_fingerprint info,
       haveReadFileInfo := True\<rparr>"

subsection \<open>The persistent store and the other collaborators\<close>

text \<open>
  Modelled from the spec: \<^verbatim>\<open>tachyfont.Persist\<close> and \<^verbatim>\<open>tachyfont.CompactCff\<close> are not
  among the source files. \<^verbatim>\<open>deleteDatabase\<close> removes the font's database when it
  succeeds; \<^verbatim>\<open>putStores\<close> writes the four stores and resolves with the values
  written ("the updated data"); \<^verbatim>\<open>getStores\<close> of the metadata store reads what the
  database holds; \<^verbatim>\<open>clearDataStores\<close> empties the four stores.
\<close>

definition Persist_deleteDatabase :: "collaborators \<Rightarrow> unit promise" where
  "Persist_deleteDatabase env s =
     (case call DeleteDatabase (deleteDatabase env (tick s)) s of
        (Resolved v, s') \<Rightarrow> (Resolved v, s'\<lparr>db := NoDatabase\<rparr>)
      | (r, s') \<Rightarrow> (r, s'))"

definition Persist_openIndexedDb :: "collaborators \<Rightarrow> unit promise" where
  "Persist_openIndexedDb env s = call OpenIndexedDb (openIndexedDb env (tick s)) s"

definition Persist_getMetadata :: "collaborators \<Rightarrow> nat option promise" where
  "Persist_getMetadata env s =
     (case call GetStores (getStores env (tick s)) s of
        (Resolved v, s') \<Rightarrow>
          (Resolved (case db s' of Stores values \<Rightarrow> Some (storedMetadata values) | _ \<Rightarrow> None), s')
      | (Rejected e, s') \<Rightarrow> (Rejected e, s')
      | (Pending, s') \<Rightarrow> (Pending, s'))"

definition Persist_putStores :: "collaborators \<Rightarrow> storeValues \<Rightarrow> storeValues promise" where
  "Persist_putStores env newValues s =
     (case call PutStores (putStores env (tick s)) s of
        (Resolved v, s') \<Rightarrow> (Resolved newValues, s'\<lparr>db := Stores newValues\<rparr>)
      | (Rejected e, s') \<Rightarrow> (Rejected e, s')
      | (Pending, s') \<Rightarrow> (Pending, s'))"

definition CompactCff_clearDataStores :: "collaborators \<Rightarrow> unit promise" where
  "CompactCff_clearDataStores env s =
     (case call ClearDataStores (clearDataStores env (tick s)) s of
        (Resolved v, s') \<Rightarrow> (Resolved v, s'\<lparr>db := EmptyStores\<rparr>)
      | (r, s') \<Rightarrow> (r, s'))"

definition CompactCff_injectChars ::
  "collaborators \<Rightarrow> nat list \<Rightarrow> bundleResponse \<Rightarrow> compactCff promise" where
  "CompactCff_injectChars env codes bundle s =
     call (InjectChars codes) (injectChars env (tick s) codes bundle) s"

definition Browser_setFont :: "collaborators \<Rightarrow> string promise" where
  "Browser_setFont env s = call SetFont (setFont env (tick s)) s"

definition backend_requestCodepoints ::
  "collaborators \<Rightarrow> nat list \<Rightarrow> bundleResponse option promise" where
  "backend_requestCodepoints env codes s =
     call (RequestCodepoints codes) (requestCodepoints env (tick s) codes) s"

definition backend_requestFontBase :: "collaborators \<Rightarrow> nat list promise" where
  "backend_requestFontBase env s = call RequestFontBase (requestFontBase env (tick s)) s"

definition getPrecedingPromise :: "collaborators \<Rightarrow> unit promise" where
  "getPrecedingPromise env s = call PrecedingPromise (precedingPromise env (tick s)) s"

subsection \<open>Dropping the database, saving a new compact font\<close>

text \<open>\<^verbatim>\<open>tachyfont.IncrementalFont.obj.prototype.dropDb\<close>.\<close>

definition dropDb :: "collaborators \<Rightarrow> unit promise" where
  "dropDb env =
     thenCatch (Persist_deleteDatabase env)
       (\<lambda>e s. reject NoReason (reportError DELETE_IDB s))"

text \<open>
  \<^verbatim>\<open>saveNewCompactFont\<close>. The value is the array \<^verbatim>\<open>putStores\<close> resolves with, or
  \<^verbatim>\<open>undefined\<close> (\<open>None\<close>): the handler of a failed read or write closes the database
  and makes a rejected promise, which it does not return, so the handler's own value
  is \<^verbatim>\<open>undefined\<close>.
\<close>

definition saveNewCompactFont :: "collaborators \<Rightarrow> fontTableData \<Rightarrow> storeValues option promise" where
  "saveNewCompactFont env tableData =
     thenP (Persist_openIndexedDb env)
       (\<lambda>database.
          thenBoth
            (thenP (Persist_getMetadata env)
               (\<lambda>getData.
                  let newValues =
                        \<lparr>storedFontBytes = sfntFontData tableData,
                         storedFileInfo = tableFileInfo tableData,
                         storedCharList = tableCharList tableData,
                         storedMetadata =
                           (case getData of Some m \<Rightarrow> m | None \<Rightarrow> tableMetadata tableData)\<rparr>
                  in Persist_putStores env newValues))
            (\<lambda>data. resolve (Some data))
            (\<lambda>e. resolve None))"

text \<open>
  \<^verbatim>\<open>processFontbase\<close>. It runs inside a promise callback of its callers, so what it
  throws (the binary transform failing, \<^verbatim>\<open>newData[0]\<close> of an \<^verbatim>\<open>undefined\<close>
  \<^verbatim>\<open>newData\<close>) rejects the callback's promise. The compacted tables start with the
  empty char list and metadata that \<^verbatim>\<open>processFontbase\<close> puts in.
\<close>

definition processFontbase :: "collaborators \<Rightarrow> nat list \<Rightarrow> compactFontWorkingData promise" where
  "processFontbase env urlBaseBytes s0 =
     (let s = addLog URL_GET_BASE s0
      in case decodeAndCompact env urlBaseBytes of
           Inl e \<Rightarrow> (Rejected e, s)
         | Inr (compactBytes, compactFileInfo) \<Rightarrow>
             let compactFontTableData =
                   \<lparr>sfntFontData = compactBytes, tableFileInfo = compactFileInfo,
                    tableCharList = Map.empty, tableMetadata = 0\<rparr>
             in thenP
                  (thenCatch (saveNewCompactFont env compactFontTableData)
                     (\<lambda>e s. thenP (CompactCff_clearDataStores env) (\<lambda>u. reject e)
                              (reportError SAVE_NEW_COMPACT s)))
                  (\<lambda>newData.
                     case newData of
                       None \<Rightarrow> reject TypeError
                     | Some d \<Rightarrow>
                         resolve \<lparr>fontBytes = storedFontBytes d, charList = storedCharList d,
                                  workingFileInfo = storedFileInfo d\<rparr>)
                  s)"

text \<open>\<^verbatim>\<open>getCompactFontFromUrl\<close>.\<close>

definition getCompactFontFromUrl :: "collaborators \<Rightarrow> compactFontWorkingData promise" where
  "getCompactFontFromUrl env =
     thenP (backend_requestFontBase env) (\<lambda>urlBaseBytes. processFontbase env urlBaseBytes)"

subsection \<open>The needed characters\<close>

text \<open>\<^verbatim>\<open>!tmp_charlist[c]\<close>: an absent entry and the number 0 are falsy.\<close>

definition truthy :: "nat option \<Rightarrow> bool" where
  "truthy v = (case v of None \<Rightarrow> False | Some n \<Rightarrow> n \<noteq> 0)"

text \<open>
  The first loop of \<^verbatim>\<open>calcNeededChars\<close>, over \<^verbatim>\<open>charArray\<close>, with the copy
  \<^verbatim>\<open>tmp_charlist\<close> that it assigns to. A NaN code is not set in the bit array.
\<close>

fun neededLoop :: "sparseBitArray \<Rightarrow> jsstring list \<Rightarrow> charlist \<Rightarrow> nat list" where
  "neededLoop loadable [] tmp_charlist = []"
| "neededLoop loadable (c # cs) tmp_charlist =
     (case charToCode c of
        None \<Rightarrow> neededLoop loadable cs tmp_charlist
      | Some code \<Rightarrow>
          if isSet loadable code \<and> \<not> truthy (tmp_charlist c)
          then code # neededLoop loadable cs (tmp_charlist(c \<mapsto> 1))
          else neededLoop loadable cs tmp_charlist)"

text \<open>
  The loop over the head chunk: \<^verbatim>\<open>charlist[c] = 1; delete this.charsToLoad_[c]\<close> for
  the character \<open>c\<close> of each code.
\<close>

fun markLoop ::
  "nat list \<Rightarrow> charlist \<times> (jsstring \<times> nat) list \<Rightarrow> charlist \<times> (jsstring \<times> nat) list" where
  "markLoop [] st = st"
| "markLoop (code # codes) (charlist, toLoad) =
     (let c = stringFromCodePoint code
      in markLoop codes (charlist(c \<mapsto> 1), filter (\<lambda>kv. fst kv \<noteq> c) toLoad))"

text \<open>
  The sequence of \<^verbatim>\<open>calcNeededChars\<close> after \<^verbatim>\<open>possibly_obfuscate\<close>, before it is
  split, and the char list that \<^verbatim>\<open>possibly_obfuscate\<close> leaves (it is handed the char
  list itself, not the copy).
\<close>

definition obfuscatedCodes :: "collaborators \<Rightarrow> state \<Rightarrow> charlist \<Rightarrow> nat list \<times> charlist" where
  "obfuscatedCodes env s charlist =
     possibly_obfuscate (noObfuscate env) (mathRandom env (tick s))
       (neededLoop (loadableCodepoints s) (map fst (charsToLoad s)) charlist)
       charlist (loadableCodepoints s)"

text \<open>
  \<^verbatim>\<open>calcNeededChars\<close>. The char list is the object the promise
  \<^verbatim>\<open>compactCharList_\<close> is resolved with: assigning to it changes what the promise holds.
  \<^verbatim>\<open>Array.sort\<close> with the comparison \<^verbatim>\<open>a - b\<close> sorts the numbers ascending.
\<close>

definition calcNeededChars :: "collaborators \<Rightarrow> nat list promise" where
  "calcNeededChars env s0 =
     (let charArray = map fst (charsToLoad s0)
      in if length charArray = 0 then resolve [] s0
         else
           thenP
             (thenCatch getCompactCharList
                (\<lambda>e s. reject e (reportError REJECTED_GET_COMPACT_CHARLIST s)))
             (\<lambda>charlist s1.
                let needed = neededLoop (loadableCodepoints s1) charArray charlist;
                    s2 = addLog MISS_RATE (addLog MISS_COUNT s1)
                in if length needed = 0 then resolve needed s2
                   else if assertFails env s2 then (Rejected AssertionError, s2)
                   else
                     let (obfuscated, charlist1) =
                           possibly_obfuscate (noObfuscate env) (mathRandom env (tick s1))
                             needed charlist (loadableCodepoints s2);
                         (remaining, chunk) =
                           (if maximumRequestSize s2 \<noteq> 0
                            then (drop (maximumRequestSize s2) obfuscated,
                                  take (maximumRequestSize s2) obfuscated)
                            else ([], obfuscated));
                         (charlist2, toLoad) = markLoop chunk (charlist1, charsToLoad s2);
                         s3 = s2\<lparr>compactCharList := Resolved charlist2, charsToLoad := toLoad\<rparr>;
                         s4 = (if length remaining \<noteq> 0 then emit SetTimeout s3 else s3)
                     in resolve (sort chunk) s4)
             s0)"

subsection \<open>Fetching, the fingerprint, injecting\<close>

text \<open>\<^verbatim>\<open>checkFingerprint\<close>; \<open>None\<close> is a \<^verbatim>\<open>null\<close> bundle response.\<close>

definition checkFingerprint ::
  "collaborators \<Rightarrow> bundleResponse option \<Rightarrow> bundleResponse option promise" where
  "checkFingerprint env response s =
     (case response of
        None \<Rightarrow> resolve response s
      | Some bundle \<Rightarrow>
          if assertFails env s then (Rejected AssertionError, s)
          else if sha1_fingerprint s = signature bundle then resolve response s
          else reject (Message ''reject fingerprint'') s)"

text \<open>\<^verbatim>\<open>handleFingerprintMismatch\<close>.\<close>

definition handleFingerprintMismatch :: "collaborators \<Rightarrow> bundleResponse option promise" where
  "handleFingerprintMismatch env s =
     thenP (dropDb env) (\<lambda>database. reject (Message ''deleted database''))
       (reportError FINGERPRINT_MISMATCH s)"

text \<open>\<^verbatim>\<open>fetchChars\<close>.\<close>

definition fetchChars :: "collaborators \<Rightarrow> nat list \<Rightarrow> bundleResponse option promise" where
  "fetchChars env requestedCodes =
     (if length requestedCodes = 0 then reject (Message ''no chars to fetch'')
      else
        thenCatch
          (thenP (backend_requestCodepoints env requestedCodes)
             (\<lambda>response. checkFingerprint env response))
          (\<lambda>e. handleFingerprintMismatch env))"

text \<open>
  \<^verbatim>\<open>injectCompact\<close>, and before it the callback that it gives the promise of
  \<^verbatim>\<open>injectChars\<close>: the font with the injected glyphs is handed to the browser.
\<close>

definition setInjectedFont :: "collaborators \<Rightarrow> compactCff \<Rightarrow> compactCff promise" where
  "setInjectedFont env cff s =
     (if assertFails env s then (Rejected AssertionError, s)
      else
        thenCatch
          (thenP (Browser_setFont env)
             (\<lambda>url s'.
                let s1 = s'\<lparr>blobUrl := Some url\<rparr>;
                    s2 = (case cffTables2 cff of
                            Some tables2 \<Rightarrow>
                              s1\<lparr>compactCharList :=
                                    encapsulatedResolve tables2 (compactCharList s1)\<rparr>
                          | None \<Rightarrow> s1)
                in resolve cff s2))
          (\<lambda>e s'. reject e (reportError INJECT_FONT_COMPACT s'))
          s)"

definition injectCompact :: "collaborators \<Rightarrow> nat list \<Rightarrow> bundleResponse \<Rightarrow> compactCff promise" where
  "injectCompact env codes bundle =
     thenP
       (thenCatch (CompactCff_injectChars env codes bundle)
          (\<lambda>e s.
             thenP (thenCatch (Persist_deleteDatabase env) (\<lambda>e'. resolve ()))
               (\<lambda>u. reject e)
               (reportError INJECT_FONT_INJECT_CHARS s)))
       (\<lambda>cff. setInjectedFont env cff)"

subsection \<open>The load cycle\<close>

text \<open>
  \<^verbatim>\<open>loadChars\<close>. The first \<^verbatim>\<open>injectCompact\<close> is called in a callback that does not
  return its promise: the injection runs, and the callback's promise resolves whatever
  becomes of it.
\<close>

definition injectStep :: "collaborators \<Rightarrow> bundleResponse \<Rightarrow> unit promise" where
  "injectStep env bundle =
     thenCatch
       (thenCatch
          (thenP getCompactCharList
             (\<lambda>charlist s. (Resolved (), snd (injectCompact env (neededCodes s) bundle s))))
          (\<lambda>e s.
             if refetchedCompact s then reject e s
             else
               thenP
                 (thenP (getCompactFontFromUrl env)
                    (\<lambda>compactWorkingData s'.
                       resolve ()
                         (s'\<lparr>compactCharList :=
                               encapsulatedResolve (charList compactWorkingData)
                                 (compactCharList s')\<rparr>)))
                 (\<lambda>u s'. ignoreValue (injectCompact env (neededCodes s') bundle) s')
                 (s\<lparr>refetchedCompact := True\<rparr>)))
       (\<lambda>e s. CompactCff_clearDataStores env (reportError INJECT_COMPACT s))"

definition loadCycle :: "collaborators \<Rightarrow> unit promise" where
  "loadCycle env s =
     (if assertFails env s then (Rejected AssertionError, s)
      else
        thenCatch
          (thenP
             (thenBoth (calcNeededChars env)
                (\<lambda>neededCodes' s'.
                   if length neededCodes' = 0 then reject (Message ''no chars to load'') s'
                   else fetchChars env neededCodes' (s'\<lparr>neededCodes := neededCodes'\<rparr>))
                (\<lambda>e s'. reject e (reportError CALC_NEEDED_CHARS s')))
             (\<lambda>response s'.
                case response of
                  None \<Rightarrow> reject (Message ''bundleResponse == null'') s'
                | Some bundle \<Rightarrow>
                    injectStep env bundle
                      (if glyphCount bundle \<noteq> 0 then s'\<lparr>needToSetFont := True\<rparr> else s')))
          (\<lambda>e. resolve ())
          s)"


subsection \<open>Predicates of the statements\<close>

text \<open>
  The window of the obfuscation around a code: \<open>code - 128 .. code + 128\<close>; a codepoint
  is not negative, which clips the window at 0.
\<close>

definition window :: "nat \<Rightarrow> nat \<Rightarrow> bool" where
  "window code x = (int code - 128 \<le> int x \<and> int x \<le> int code + 128)"

text \<open>The invariant of the loop, relative to the state it starts from.\<close>

definition decoysOnly :: "nat list \<Rightarrow> sparseBitArray \<Rightarrow> nat list \<times> charlist \<Rightarrow> nat list \<times> charlist \<Rightarrow> bool" where
  "decoysOnly codes l st0 st =
     (set (fst st0) \<subseteq> set (fst st) \<and>
      (\<forall>k v. snd st0 k = Some v \<longrightarrow> snd st k = Some v) \<and>
      (\<forall>x\<in>set (fst st). x \<in> set (fst st0) \<or>
          (x \<in> l \<and> snd st0 (stringFromCodePoint x) = None \<and>
           snd st (stringFromCodePoint x) = Some 1 \<and> (\<exists>c\<in>set codes. window c x))) \<and>
      (\<forall>k. snd st k \<noteq> snd st0 k \<longrightarrow>
          snd st0 k = None \<and> snd st k = Some 1 \<and> (\<exists>x\<in>set (fst st). x \<in> l \<and> k = stringFromCodePoint x)) \<and>
      (distinct (fst st0) \<longrightarrow> distinct (fst st)))"


text \<open>
  The candidate that try \<open>i\<close> of the loop of \<^verbatim>\<open>possibly_obfuscate\<close> draws with the
  random draw \<open>r\<close> (\<^verbatim>\<open>newCode\<close>), and the candidates of the tries \<open>0 .. n - 1\<close> that
  are acceptable at the time of the call: set in \<open>loadableCodepoints\<close>, their character
  not in \<open>alreadyRequestedChars\<close>.
\<close>

definition candidate :: "nat list \<Rightarrow> nat \<Rightarrow> nat \<Rightarrow> nat" where
  "candidate codes r i =
     (let code = codes ! (i mod length codes);
          bottom = int code - OBFUSCATION_RANGE div 2;
          bottom = (if bottom < 0 then 0 else bottom);
          top = int code + OBFUSCATION_RANGE div 2
      in floorUniformRandom r bottom (top + 1))"

definition acceptable :: "sparseBitArray \<Rightarrow> charlist \<Rightarrow> nat \<Rightarrow> bool" where
  "acceptable loadable alreadyRequestedChars x =
     (isSet loadable x \<and> alreadyRequestedChars (stringFromCodePoint x) = None)"

definition acceptedDraws ::
  "nat list \<Rightarrow> sparseBitArray \<Rightarrow> (nat \<Rightarrow> nat) \<Rightarrow> charlist \<Rightarrow> nat \<Rightarrow> nat list" where
  "acceptedDraws codes loadable rnd alreadyRequestedChars n =
     filter (acceptable loadable alreadyRequestedChars)
       (map (\<lambda>i. candidate codes (rnd i) i) [0..<n])"

subsection \<open>Concrete inputs\<close>

text \<open>
  Random sources (every draw 0; the draw of try \<open>i\<close> is \<open>i\<close>), the empty char list,
  and bit arrays: the codepoints below 256, and the ten letters A to J.
\<close>

definition rndZero :: "nat \<Rightarrow> nat" where
  "rndZero i = 0"

definition rndCount :: "nat \<Rightarrow> nat" where
  "rndCount i = i"

definition noChars :: charlist where
  "noChars = Map.empty"

definition latin :: sparseBitArray where
  "latin = {0..<256}"

definition lettersAJ :: sparseBitArray where
  "lettersAJ = {65..<75}"

definition twentyCodes :: "nat list" where
  "twentyCodes = [65..<85]"

definition rndB :: "nat \<Rightarrow> nat" where
  "rndB i = 66"

text \<open>
  Collaborators that all succeed: the backend answers a request with a bundle of one
  glyph per code, signed \<open>abc123\<close>; the store holds and takes what it is given; the
  random draw of try \<open>i\<close> is \<open>i\<close>.
\<close>

definition quiet :: collaborators where
  "quiet =
     \<lparr>noObfuscate = False,
      enableAsserts = True,
      mathRandom = (\<lambda>t. rndCount),
      precedingPromise = (\<lambda>t. Inr ()),
      requestCodepoints = (\<lambda>t codes. Inr (Some \<lparr>glyphCount = length codes, signature = ''abc123''\<rparr>)),
      requestFontBase = (\<lambda>t. Inr [0, 1, 2]),
      deleteDatabase = (\<lambda>t. Inr ()),
      openIndexedDb = (\<lambda>t. Inr ()),
      getStores = (\<lambda>t. Inr ()),
      putStores = (\<lambda>t. Inr ()),
      clearDataStores = (\<lambda>t. Inr ()),
      injectChars = (\<lambda>t codes bundle. Inr \<lparr>cffFontData = [0, 1, 2, 3], cffTables2 = None\<rparr>),
      setFont = (\<lambda>t. Inr ''blob:1''),
      decodeAndCompact =
        (\<lambda>bytes. Inr (bytes, \<lparr>cmapMapping = [], fi_isTtf = False, fi_sha1_fingerprint = ''abc123''\<rparr>))\<rparr>"

text \<open>
  A font whose base has been acquired: its file info (the codepoints it can load, the
  fingerprint \<open>abc123\<close>) has been set, its char list is resolved, its database holds the
  base. The characters waiting in \<^verbatim>\<open>charsToLoad_\<close> are those of the given codepoints,
  in that order.
\<close>

definition storedBase :: "nat list \<Rightarrow> charlist \<Rightarrow> database" where
  "storedBase codepoints cl =
     Stores \<lparr>storedFontBytes = [0, 1, 2],
             storedFileInfo = \<lparr>cmapMapping = codepoints, fi_isTtf = False, fi_sha1_fingerprint = ''abc123''\<rparr>,
             storedCharList = cl,
             storedMetadata = 0\<rparr>"

definition loadedFont :: "nat option \<Rightarrow> nat list \<Rightarrow> charlist \<Rightarrow> nat list \<Rightarrow> state" where
  "loadedFont req_size codepoints cl wanted =
     (setFileInfo \<lparr>cmapMapping = codepoints, fi_isTtf = False, fi_sha1_fingerprint = ''abc123''\<rparr>
        (newObj req_size None (storedBase codepoints cl)))
       \<lparr>compactCharList := Resolved cl,
        charsToLoad := map (\<lambda>n. (stringFromCodePoint n, 1)) wanted\<rparr>"

text \<open>
  A char list that has the letter B; collaborators as \<open>quiet\<close> with the debug flag
  \<^verbatim>\<open>noObfuscate\<close> set.
\<close>

definition hasB :: charlist where
  "hasB = Map.empty(stringFromCodePoint 66 \<mapsto> 1)"

definition quietPlain :: collaborators where
  "quietPlain = quiet\<lparr>noObfuscate := True\<rparr>"

text \<open>
  The codepoints of the lower-case letters a to z, and 21 of them as a page asks for
  them: z first, then a to t.
\<close>

definition lowerCase :: "nat list" where
  "lowerCase = [97..<123]"

definition zThenAToT :: "nat list" where
  "zThenAToT = 122 # [97..<117]"

text \<open>
  A backend whose request for codepoints fails in transport (reason 503), and a backend
  that answers with bundles of another font generation (signature \<open>xyz789\<close>, where the
  base has \<open>abc123\<close>).
\<close>

definition backendDown :: collaborators where
  "backendDown = quiet\<lparr>requestCodepoints := (\<lambda>t codes. Inl (Failure 503))\<rparr>"

definition staleBackend :: collaborators where
  "staleBackend =
     quiet\<lparr>requestCodepoints :=
             (\<lambda>t codes. Inr (Some \<lparr>glyphCount = length codes, signature = ''xyz789''\<rparr>))\<rparr>"

text \<open>
  A page that asks a loaded font, whose char list is still empty, for the 21 letters;
  and the state in which the load cycle of that page calls \<open>fetchChars\<close>: the state
  \<open>calcNeededChars\<close> leaves, with the cycle's \<^verbatim>\<open>neededCodes\<close> assigned.
\<close>

definition pageState :: state where
  "pageState = loadedFont None lowerCase noChars zThenAToT"

definition fetchState :: "collaborators \<Rightarrow> state" where
  "fetchState env = (snd (calcNeededChars env pageState))\<lparr>neededCodes := [97..<117] @ [122]\<rparr>"

text \<open>
  A persistent store whose database cannot be opened (reason 7), and one whose write
  fails (reason 8); a manager just constructed, with no database yet.
\<close>

definition storeLocked :: collaborators where
  "storeLocked = quiet\<lparr>openIndexedDb := (\<lambda>t. Inl (Failure 7))\<rparr>"

definition storeFull :: collaborators where
  "storeFull = quiet\<lparr>putStores := (\<lambda>t. Inl (Failure 8))\<rparr>"

definition freshObj :: state where
  "freshObj = newObj None None NoDatabase"

text \<open>
  Collaborators as \<open>quiet\<close> whose every random draw is 66, and a page that asks a loaded
  font, which can load the letters A and B and whose char list is empty, for the letter A.
\<close>

definition quietB :: collaborators where
  "quietB = quiet\<lparr>mathRandom := (\<lambda>t. rndB)\<rparr>"

definition letterA :: state where
  "letterA = loadedFont None [65, 66] noChars [65]"




subsection \<open>The parts of calcNeededChars, by name\<close>

text \<open>
  The diff of \<^verbatim>\<open>calcNeededChars\<close> (its first loop over the keys of \<^verbatim>\<open>charsToLoad_\<close>),
  and the two slices at \<^verbatim>\<open>maximumRequestSize_\<close>: the head chunk and the remainder.
\<close>

definition neededDiff :: "state \<Rightarrow> charlist \<Rightarrow> nat list" where
  "neededDiff s charlist = neededLoop (loadableCodepoints s) (map fst (charsToLoad s)) charlist"

definition headChunk :: "nat \<Rightarrow> nat list \<Rightarrow> nat list" where
  "headChunk limit codes = (if limit \<noteq> 0 then take limit codes else codes)"

definition remainder :: "nat \<Rightarrow> nat list \<Rightarrow> nat list" where
  "remainder limit codes = (if limit \<noteq> 0 then drop limit codes else [])"

text \<open>The events that a run adds to the trace.\<close>

definition newEvents :: "state \<Rightarrow> state \<Rightarrow> event list" where
  "newEvents s s' = drop (length (trace s)) (trace s')"

subsection \<open>Reading the trace\<close>

definition isFault :: "event \<Rightarrow> bool" where
  "isFault ev = (case ev of Fault c \<Rightarrow> True | _ \<Rightarrow> False)"

definition isReport :: "event \<Rightarrow> bool" where
  "isReport ev = (case ev of Report code \<Rightarrow> True | _ \<Rightarrow> False)"

text \<open>
  The faults are reported, except those of the collaborators \<open>exempt\<close>: after each
  rejection of another collaborator's call, a report is sent to telemetry at some later
  point of the trace. All faults are reported when this holds with no collaborator
  exempt.
\<close>

fun faultsReported :: "(collab \<Rightarrow> bool) \<Rightarrow> event list \<Rightarrow> bool" where
  "faultsReported exempt [] = True"
| "faultsReported exempt (ev # evs) =
     ((case ev of Fault c \<Rightarrow> exempt c \<or> list_ex isReport evs | _ \<Rightarrow> True) \<and>
      faultsReported exempt evs)"


text \<open>
  The collaborators whose rejection a handler of the load cycle catches without a report
  (\<^verbatim>\<open>deleteDatabase\<close> in \<^verbatim>\<open>injectCompact\<close>, \<^verbatim>\<open>clearDataStores\<close> under the
  last handler of \<^verbatim>\<open>loadChars\<close>), and the traces that leave nothing else open: if
  a collaborator rejected then a report was sent, and every rejection of a collaborator
  other than these two is followed by a report.
\<close>

definition swallowed :: "collab \<Rightarrow> bool" where
  "swallowed c = (c = DeleteDatabase \<or> c = ClearDataStores)"

definition settled :: "event list \<Rightarrow> bool" where
  "settled t = ((list_ex isReport t \<or> \<not> list_ex isFault t) \<and> faultsReported swallowed t)"

text \<open>
  The events of a cycle after its request was sent: no further request for codepoints,
  no wait for the preceding cycle, no follow-up scheduled and no lock released. The
  events \<open>within\<close> a part of the cycle are such events when the part comes after the
  request (\<open>inside\<close>), and any events otherwise.
\<close>

definition afterFetch :: "event \<Rightarrow> bool" where
  "afterFetch ev =
     (case ev of
        Call c \<Rightarrow> (case c of RequestCodepoints codes \<Rightarrow> False | PrecedingPromise \<Rightarrow> False | _ \<Rightarrow> True)
      | SetTimeout \<Rightarrow> False
      | ReleaseLock \<Rightarrow> False
      | _ \<Rightarrow> True)"

definition within :: "bool \<Rightarrow> event \<Rightarrow> bool" where
  "within inside ev = (\<not> inside \<or> afterFetch ev)"

text \<open>
  How a run of a promise chain is described: from a state whose char list promise has
  settled, the run leaves a state whose char list promise has settled, and the trace it
  leaves is the trace it found with new events \<open>t\<close> appended; \<open>Q\<close> relates the outcome of
  the chain to these events.
\<close>

definition run :: "('a outcome \<Rightarrow> event list \<Rightarrow> bool) \<Rightarrow> 'a promise \<Rightarrow> bool" where
  "run Q p =
     (\<forall>s. compactCharList s \<noteq> Pending \<longrightarrow>
          compactCharList (snd (p s)) \<noteq> Pending \<and>
          (\<exists>t. trace (snd (p s)) = trace s @ t \<and> Q (fst (p s)) t))"

text \<open>
  A run accounts for its faults: the chain settles, and the events of the run leave
  nothing open, or the chain itself is rejected (and the fault is passed on to the
  caller's handler).
\<close>

definition accounted :: "bool \<Rightarrow> 'a outcome \<Rightarrow> event list \<Rightarrow> bool" where
  "accounted inside r t =
     (r \<noteq> Pending \<and> list_all (within inside) t \<and> (settled t \<or> (\<exists>e. r = Rejected e)))"

definition reported :: "bool \<Rightarrow> 'a outcome \<Rightarrow> event list \<Rightarrow> bool" where
  "reported inside r t = (r \<noteq> Pending \<and> list_all (within inside) t \<and> settled t)"


definition called :: "collab \<Rightarrow> 'a outcome \<Rightarrow> event list \<Rightarrow> bool" where
  "called c r t =
     ((\<exists>v. r = Resolved v) \<and> t = [Call c] \<or> (\<exists>e. r = Rejected e) \<and> t = [Call c, Fault c])"

section \<open>Properties\<close>

subsection \<open>The obfuscation loop\<close>

lemma floorUniformRandom_range:
  assumes "0 \<le> bottom" "bottom < top1"
  shows "bottom \<le> int (floorUniformRandom r bottom top1) \<and> int (floorUniformRandom r bottom top1) < top1"
proof -
  have "r mod nat (top1 - bottom) < nat (top1 - bottom)" using assms by simp
  then have "int (r mod nat (top1 - bottom)) < int (nat (top1 - bottom))"
    by (simp only: of_nat_less_iff)
  then have "int (r mod nat (top1 - bottom)) < top1 - bottom" using assms by simp
  then show ?thesis using assms unfolding floorUniformRandom_def by simp
qed

lemma length_objectKeys [simp]: "length (objectKeys ks) = length ks"
  unfolding objectKeys_def using sum_length_filter_compl[of isArrayIndex ks] by simp

lemma set_objectKeys [simp]: "set (objectKeys ks) = set ks"
  unfolding objectKeys_def by auto

lemma distinct_objectKeys: "distinct ks \<Longrightarrow> distinct (objectKeys ks)"
  unfolding objectKeys_def by auto

lemma length_setKey: "length (setKey k ks) \<le> Suc (length ks)"
  unfolding setKey_def by simp

lemma set_setKey [simp]: "set (setKey k ks) = insert k (set ks)"
  unfolding setKey_def by auto

lemma distinct_setKey: "distinct ks \<Longrightarrow> distinct (setKey k ks)"
  unfolding setKey_def by auto

lemma set_foldl_setKey: "set (foldl (\<lambda>m code. setKey code m) ks codes) = set ks \<union> set codes"
  by (induction codes arbitrary: ks) auto

lemma distinct_foldl_setKey: "distinct ks \<Longrightarrow> distinct (foldl (\<lambda>m code. setKey code m) ks codes)"
  by (induction codes arbitrary: ks) (auto simp: distinct_setKey)

lemma length_foldl_setKey:
  "length (foldl (\<lambda>m code. setKey code m) ks codes) \<le> length ks + length codes"
proof (induction codes arbitrary: ks)
  case Nil
  then show ?case by simp
next
  case (Cons c cs)
  have "length (foldl (\<lambda>m code. setKey code m) (setKey c ks) cs) \<le> length (setKey c ks) + length cs"
    by (rule Cons.IH)
  also have "\<dots> \<le> Suc (length ks) + length cs" using length_setKey[of c ks] by simp
  finally show ?case by simp
qed

lemma obfuscate_try_cases:
  "obfuscate_try codes l r i (cm, a) = (cm, a) \<or>
   (\<exists>x. x \<in> l \<and> a (stringFromCodePoint x) = None \<and> (\<exists>c\<in>set codes. window c x) \<and>
        obfuscate_try codes l r i (cm, a) = (setKey x cm, a(stringFromCodePoint x \<mapsto> 1)))"
proof (cases "codes = []")
  case True
  then show ?thesis by (simp add: obfuscate_try_def)
next
  case False
  define code where "code = codes ! (i mod length codes)"
  define bottom where "bottom = (if int code - 128 < 0 then 0 else int code - 128)"
  define x where "x = floorUniformRandom r bottom (int code + 128 + 1)"
  have cin: "code \<in> set codes" using False by (simp add: code_def)
  have b: "0 \<le> bottom" "bottom < int code + 128 + 1" by (auto simp: bottom_def)
  have rng: "bottom \<le> int x" "int x < int code + 128 + 1"
    using floorUniformRandom_range[OF b, of r] by (simp_all add: x_def)
  then have w: "window code x" by (auto simp: window_def bottom_def split: if_splits)
  have eq: "obfuscate_try codes l r i (cm, a) =
     (if x \<notin> l then (cm, a)
      else if a (stringFromCodePoint x) = None then (setKey x cm, a(stringFromCodePoint x \<mapsto> 1))
      else (cm, a))"
    using False
    unfolding obfuscate_try_def Let_def OBFUSCATION_RANGE_def isSet_def x_def bottom_def code_def
    by simp
  show ?thesis
    unfolding eq using w cin by (cases "x \<in> l"; cases "a (stringFromCodePoint x)") auto
qed

lemma obfuscate_loop_step:
  "length (fst st) < t \<Longrightarrow> i < m \<Longrightarrow>
   obfuscate_loop codes l rnd t m i st =
   obfuscate_loop codes l rnd t m (Suc i) (obfuscate_try codes l (rnd i) i st)"
  by (subst obfuscate_loop.simps) simp

lemma obfuscate_loop_stop:
  "\<not> (length (fst st) < t \<and> i < m) \<Longrightarrow> obfuscate_loop codes l rnd t m i st = st"
  by (subst obfuscate_loop.simps) auto

lemma obfuscate_loop_induct_invariant:
  "P st \<Longrightarrow> (\<forall>r i st. P st \<longrightarrow> P (obfuscate_try codes l r i st)) \<Longrightarrow>
   P (obfuscate_loop codes l rnd t m i st)"
proof (induction codes l rnd t m i st rule: obfuscate_loop.induct)
  case (1 codes l rnd t m i st)
  show ?case
  proof (cases "length (fst st) < t \<and> i < m")
    case True
    then have c: "length (objectKeys (fst st)) < t \<and> i < m" by simp
    have "P (obfuscate_try codes l (rnd i) i st)" by (rule 1(3)[rule_format, OF 1(2)])
    from 1(1)[OF c this 1(3)] have "P (obfuscate_loop codes l rnd t m (Suc i)
        (obfuscate_try codes l (rnd i) i st))" by simp
    moreover have "obfuscate_loop codes l rnd t m i st =
        obfuscate_loop codes l rnd t m (Suc i) (obfuscate_try codes l (rnd i) i st)"
      using True by (intro obfuscate_loop_step) simp_all
    ultimately show ?thesis by (simp only:)
  next
    case False
    show ?thesis using 1(2) by (simp only: obfuscate_loop_stop[OF False])
  qed
qed

lemma obfuscate_loop_invariant:
  assumes "P st" and "\<And>r i st. P st \<Longrightarrow> P (obfuscate_try codes l r i st)"
  shows "P (obfuscate_loop codes l rnd t m i st)"
  using assms(1)
proof (rule obfuscate_loop_induct_invariant[where P = P])
  show "\<forall>r i st. P st \<longrightarrow> P (obfuscate_try codes l r i st)"
    by (intro allI impI) (rule assms(2))
qed

lemma decoysOnly_refl: "decoysOnly codes l st st"
  unfolding decoysOnly_def by simp

lemma length_obfuscate_try: "length (fst (obfuscate_try codes l r i st)) \<le> Suc (length (fst st))"
proof -
  obtain cm a where st: "st = (cm, a)" by (cases st)
  from obfuscate_try_cases[of codes l r i cm a]
  show ?thesis
  proof
    assume "obfuscate_try codes l r i (cm, a) = (cm, a)"
    then show ?thesis unfolding st by simp
  next
    assume "\<exists>x. x \<in> l \<and> a (stringFromCodePoint x) = None \<and> (\<exists>c\<in>set codes. window c x) \<and>
        obfuscate_try codes l r i (cm, a) = (setKey x cm, a(stringFromCodePoint x \<mapsto> 1))"
    then obtain x where
      "obfuscate_try codes l r i (cm, a) = (setKey x cm, a(stringFromCodePoint x \<mapsto> 1))"
      by blast
    then show ?thesis unfolding st using length_setKey[of x cm] by simp
  qed
qed

lemma length_obfuscate_loop:
  "length (fst (obfuscate_loop codes l rnd t m i st)) \<le> max t (length (fst st))"
proof (induction codes l rnd t m i st rule: obfuscate_loop.induct)
  case (1 codes l rnd t m i st)
  show ?case
  proof (cases "length (fst st) < t \<and> i < m")
    case True
    then have c: "length (objectKeys (fst st)) < t \<and> i < m" by simp
    have "length (fst (obfuscate_try codes l (rnd i) i st)) \<le> t"
      using True length_obfuscate_try[of codes l "rnd i" i st] by simp
    with 1[OF c] have "length (fst (obfuscate_loop codes l rnd t m (Suc i)
          (obfuscate_try codes l (rnd i) i st))) \<le> t" by simp
    then show ?thesis using obfuscate_loop_step[of st t i m codes l rnd] True by simp
  next
    case False
    show ?thesis using obfuscate_loop_stop[OF False, of codes l rnd] by simp
  qed
qed

lemma decoysOnly_try:
  assumes "decoysOnly codes l st0 st"
  shows "decoysOnly codes l st0 (obfuscate_try codes l r i st)"
proof -
  obtain cm a where st: "st = (cm, a)" by (cases st)
  from obfuscate_try_cases[of codes l r i cm a]
  show ?thesis
  proof
    assume "obfuscate_try codes l r i (cm, a) = (cm, a)"
    then show ?thesis using assms st by simp
  next
    assume "\<exists>x. x \<in> l \<and> a (stringFromCodePoint x) = None \<and> (\<exists>c\<in>set codes. window c x) \<and>
        obfuscate_try codes l r i (cm, a) = (setKey x cm, a(stringFromCodePoint x \<mapsto> 1))"
    then obtain x where x: "x \<in> l" "a (stringFromCodePoint x) = None" "\<exists>c\<in>set codes. window c x"
      and eq: "obfuscate_try codes l r i (cm, a) = (setKey x cm, a(stringFromCodePoint x \<mapsto> 1))"
      by blast
    have a0: "snd st0 (stringFromCodePoint x) = None"
      using assms x(2) st unfolding decoysOnly_def by (cases "snd st0 (stringFromCodePoint x)") auto
    show ?thesis
      unfolding st eq decoysOnly_def
    proof (intro conjI)
      show "set (fst st0) \<subseteq> set (fst (setKey x cm, a(stringFromCodePoint x \<mapsto> 1)))"
        using assms st unfolding decoysOnly_def by auto
      show "\<forall>k v. snd st0 k = Some v \<longrightarrow> snd (setKey x cm, a(stringFromCodePoint x \<mapsto> 1)) k = Some v"
        using assms st a0 unfolding decoysOnly_def by auto
      show "\<forall>y\<in>set (fst (setKey x cm, a(stringFromCodePoint x \<mapsto> 1))). y \<in> set (fst st0) \<or>
          (y \<in> l \<and> snd st0 (stringFromCodePoint y) = None \<and>
           snd (setKey x cm, a(stringFromCodePoint x \<mapsto> 1)) (stringFromCodePoint y) = Some 1 \<and> (\<exists>c\<in>set codes. window c y))"
        using assms st a0 x unfolding decoysOnly_def by auto
      show "\<forall>k. snd (setKey x cm, a(stringFromCodePoint x \<mapsto> 1)) k \<noteq> snd st0 k \<longrightarrow>
          snd st0 k = None \<and> snd (setKey x cm, a(stringFromCodePoint x \<mapsto> 1)) k = Some 1 \<and>
          (\<exists>y\<in>set (fst (setKey x cm, a(stringFromCodePoint x \<mapsto> 1))). y \<in> l \<and> k = stringFromCodePoint y)"
        using assms st a0 x unfolding decoysOnly_def by auto
      show "distinct (fst st0) \<longrightarrow> distinct (fst (setKey x cm, a(stringFromCodePoint x \<mapsto> 1)))"
        using assms st unfolding decoysOnly_def by (auto simp: distinct_setKey)
    qed
  qed
qed



lemma decoysOnly_loop: "decoysOnly codes l st0 (obfuscate_loop codes l rnd t m i st0)"
proof (rule obfuscate_loop_invariant[where P = "decoysOnly codes l st0"])
  show "decoysOnly codes l st0 st0" by (rule decoysOnly_refl)
  show "\<And>r i st. decoysOnly codes l st0 st \<Longrightarrow> decoysOnly codes l st0 (obfuscate_try codes l r i st)"
    by (rule decoysOnly_try)
qed

subsection \<open>What possibly_obfuscate returns\<close>

lemma possibly_obfuscate_off:
  "noObf \<or> MINIMUM_NON_OBFUSCATION_LENGTH \<le> length codes \<Longrightarrow>
   possibly_obfuscate noObf rnd codes a l = (codes, a)"
  unfolding possibly_obfuscate_def by auto

lemma possibly_obfuscate_on:
  assumes "\<not> noObf" "length codes < MINIMUM_NON_OBFUSCATION_LENGTH"
  shows "possibly_obfuscate noObf rnd codes a l =
     (objectKeys (fst (obfuscate_loop codes l rnd 20 ((20 - length codes) * 10 + 100) 0
                         (foldl (\<lambda>m code. setKey code m) [] codes, a))),
      snd (obfuscate_loop codes l rnd 20 ((20 - length codes) * 10 + 100) 0
                         (foldl (\<lambda>m code. setKey code m) [] codes, a)))"
  using assms unfolding possibly_obfuscate_def Let_def MINIMUM_NON_OBFUSCATION_LENGTH_def
  by (simp add: case_prod_beta)

lemma possibly_obfuscate_decoys:
  "decoysOnly codes l (codes, a) (possibly_obfuscate noObf rnd codes a l)"
proof (cases "noObf \<or> MINIMUM_NON_OBFUSCATION_LENGTH \<le> length codes")
  case True
  then show ?thesis by (simp add: possibly_obfuscate_off decoysOnly_refl)
next
  case False
  then have on: "\<not> noObf" "length codes < MINIMUM_NON_OBFUSCATION_LENGTH" by auto
  define st0 where "st0 = (foldl (\<lambda>m code. setKey code m) [] codes, a)"
  define st where "st = obfuscate_loop codes l rnd 20 ((20 - length codes) * 10 + 100) 0 st0"
  have d: "decoysOnly codes l st0 st" unfolding st_def by (rule decoysOnly_loop)
  have s0: "set (fst st0) = set codes" "snd st0 = a" "distinct (fst st0)"
    by (simp_all add: st0_def set_foldl_setKey distinct_foldl_setKey)
  have eq: "possibly_obfuscate noObf rnd codes a l = (objectKeys (fst st), snd st)"
    unfolding st_def st0_def by (rule possibly_obfuscate_on[OF on])
  show ?thesis
    unfolding eq decoysOnly_def
  proof (intro conjI)
    show "set (fst (codes, a)) \<subseteq> set (fst (objectKeys (fst st), snd st))"
      using d s0 unfolding decoysOnly_def by simp
    show "\<forall>k v. snd (codes, a) k = Some v \<longrightarrow> snd (objectKeys (fst st), snd st) k = Some v"
      using d s0 unfolding decoysOnly_def by simp
    show "\<forall>x\<in>set (fst (objectKeys (fst st), snd st)). x \<in> set (fst (codes, a)) \<or>
          (x \<in> l \<and> snd (codes, a) (stringFromCodePoint x) = None \<and>
           snd (objectKeys (fst st), snd st) (stringFromCodePoint x) = Some 1 \<and>
           (\<exists>c\<in>set codes. window c x))"
      using d s0 unfolding decoysOnly_def by simp
    show "\<forall>k. snd (objectKeys (fst st), snd st) k \<noteq> snd (codes, a) k \<longrightarrow>
          snd (codes, a) k = None \<and> snd (objectKeys (fst st), snd st) k = Some 1 \<and>
          (\<exists>x\<in>set (fst (objectKeys (fst st), snd st)). x \<in> l \<and> k = stringFromCodePoint x)"
      using d s0 unfolding decoysOnly_def by simp
    show "distinct (fst (codes, a)) \<longrightarrow> distinct (fst (objectKeys (fst st), snd st))"
      using d s0 unfolding decoysOnly_def by (simp add: distinct_objectKeys)
  qed
qed

lemma possibly_obfuscate_contains:
  "set codes \<subseteq> set (fst (possibly_obfuscate noObf rnd codes a l))"
  using possibly_obfuscate_decoys[of codes l a noObf rnd] unfolding decoysOnly_def by simp

lemma possibly_obfuscate_element:
  assumes "x \<in> set (fst (possibly_obfuscate noObf rnd codes a l))"
  shows "x \<in> set codes \<or>
     (x \<in> l \<and> a (stringFromCodePoint x) = None \<and>
      snd (possibly_obfuscate noObf rnd codes a l) (stringFromCodePoint x) = Some 1 \<and>
      (\<exists>c\<in>set codes. window c x))"
  using possibly_obfuscate_decoys[of codes l a noObf rnd] assms unfolding decoysOnly_def
  by auto

lemma possibly_obfuscate_keeps:
  "a k = Some v \<Longrightarrow> snd (possibly_obfuscate noObf rnd codes a l) k = Some v"
  using possibly_obfuscate_decoys[of codes l a noObf rnd] unfolding decoysOnly_def by simp

lemma possibly_obfuscate_changes:
  assumes "snd (possibly_obfuscate noObf rnd codes a l) k \<noteq> a k"
  shows "a k = None \<and> snd (possibly_obfuscate noObf rnd codes a l) k = Some 1 \<and>
     (\<exists>x\<in>set (fst (possibly_obfuscate noObf rnd codes a l)). x \<in> l \<and> k = stringFromCodePoint x)"
  using possibly_obfuscate_decoys[of codes l a noObf rnd] assms unfolding decoysOnly_def
  by simp

lemma possibly_obfuscate_length:
  "length (fst (possibly_obfuscate noObf rnd codes a l)) \<le> max 20 (length codes)"
proof (cases "noObf \<or> MINIMUM_NON_OBFUSCATION_LENGTH \<le> length codes")
  case True
  then show ?thesis by (simp add: possibly_obfuscate_off)
next
  case False
  then have on: "\<not> noObf" "length codes < MINIMUM_NON_OBFUSCATION_LENGTH" by auto
  have "length (foldl (\<lambda>m code. setKey code m) [] codes) \<le> length codes"
    using length_foldl_setKey[of "[]" codes] by simp
  then have "max 20 (length (fst (foldl (\<lambda>m code. setKey code m) [] codes, a))) \<le> max 20 (length codes)"
    by simp
  then show ?thesis
    unfolding possibly_obfuscate_on[OF on]
    using length_obfuscate_loop[of codes l rnd 20 "(20 - length codes) * 10 + 100" 0
        "(foldl (\<lambda>m code. setKey code m) [] codes, a)"]
    by simp
qed

lemma possibly_obfuscate_distinct:
  "distinct codes \<Longrightarrow> distinct (fst (possibly_obfuscate noObf rnd codes a l))"
  using possibly_obfuscate_decoys[of codes l a noObf rnd] unfolding decoysOnly_def by simp

lemma obfuscate_loop_first_try:
  assumes "length cm < t" "0 < m"
  shows "set (fst (obfuscate_try codes l (rnd 0) 0 (cm, a)))
     \<subseteq> set (fst (obfuscate_loop codes l rnd t m 0 (cm, a)))"
proof -
  have "obfuscate_loop codes l rnd t m 0 (cm, a) =
      obfuscate_loop codes l rnd t m (Suc 0) (obfuscate_try codes l (rnd 0) 0 (cm, a))"
    using assms by (intro obfuscate_loop_step) simp_all
  then show ?thesis
    using decoysOnly_loop[of codes l "obfuscate_try codes l (rnd 0) 0 (cm, a)" rnd t m "Suc 0"]
    unfolding decoysOnly_def by simp
qed

lemma possibly_obfuscate_first_try:
  assumes "length codes < 20"
  shows "set (fst (obfuscate_try codes l (rnd 0) 0 (foldl (\<lambda>m code. setKey code m) [] codes, a)))
     \<subseteq> set (fst (possibly_obfuscate False rnd codes a l))"
proof -
  have len: "length (foldl (\<lambda>m code. setKey code m) [] codes) < 20"
    using length_foldl_setKey[of "[]" codes] assms by simp
  have on: "\<not> False" "length codes < MINIMUM_NON_OBFUSCATION_LENGTH"
    using assms by (simp_all add: MINIMUM_NON_OBFUSCATION_LENGTH_def)
  show ?thesis
    unfolding possibly_obfuscate_on[OF on]
    using obfuscate_loop_first_try[OF len, of "(20 - length codes) * 10 + 100" codes l rnd a]
    by simp
qed

subsection \<open>Characters and their codes\<close>

lemma charToCode_single:
  "\<not> (0xD800 \<le> unat u \<and> unat u \<le> 0xDBFF) \<Longrightarrow> charToCode [u] = Some (unat u)"
  by (simp add: charToCode_def)

lemma stringFromCodePoint_unat: "stringFromCodePoint (unat (u :: 16 word)) = [u]"
proof -
  have "unat u < 2 ^ 16" using unsigned_less[of u, where 'a = nat] by simp
  then have "unat u \<le> 0xFFFF" by simp
  then show ?thesis by (simp add: stringFromCodePoint_def)
qed

lemma pair_value:
  fixes a b :: nat
  assumes "0xD800 \<le> a" "0xDC00 \<le> b"
  shows "nat ((int a - 0xD800) * 1024 + (int b - 0xDC00) + 0x10000)
      = (a - 0xD800) * 1024 + (b - 0xDC00) + 0x10000"
proof -
  obtain a' where a: "a = a' + 0xD800" using assms(1) by (metis le_add_diff_inverse2)
  obtain b' where b: "b = b' + 0xDC00" using assms(2) by (metis le_add_diff_inverse2)
  have "(int a - 0xD800) * 1024 + (int b - 0xDC00) + 0x10000 = int (a' * 1024 + b' + 0x10000)"
    unfolding a b by simp
  then have "nat ((int a - 0xD800) * 1024 + (int b - 0xDC00) + 0x10000) = a' * 1024 + b' + 0x10000"
    by (simp only: nat_int)
  then show ?thesis unfolding a b by simp
qed

lemma charToCode_pair:
  fixes h l :: "16 word"
  assumes "0xD800 \<le> unat h" "unat h \<le> 0xDBFF" "0xDC00 \<le> unat l" "unat l \<le> 0xDFFF"
  shows "charToCode [h, l] = Some ((unat h - 0xD800) * 1024 + (unat l - 0xDC00) + 0x10000)"
proof -
  have "charToCode [h, l] =
      Some (nat ((int (unat h) - 0xD800) * 1024 + (int (unat l) - 0xDC00) + 0x10000))"
    unfolding charToCode_def Let_def using assms(1,2) by (simp only: list.case if_True conj_commute simp_thms)
  then show ?thesis by (simp only: pair_value[OF assms(1) assms(3)])
qed

lemma stringFromCodePoint_pair:
  fixes h l :: "16 word"
  assumes "0xD800 \<le> unat h" "unat h \<le> 0xDBFF" "0xDC00 \<le> unat l" "unat l \<le> 0xDFFF"
  shows "stringFromCodePoint ((unat h - 0xD800) * 1024 + (unat l - 0xDC00) + 0x10000) = [h, l]"
proof -
  define a where "a = unat h - 0xD800"
  define b where "b = unat l - 0xDC00"
  have ab: "b < 1024" "unat h = a + 0xD800" "unat l = b + 0xDC00"
    using assms by (simp_all add: a_def b_def)
  have d: "(a * 1024 + b) div 1024 = a" "(a * 1024 + b) mod 1024 = b"
    using ab(1) by simp_all
  have big: "\<not> a * 1024 + b + 0x10000 \<le> 0xFFFF" by simp
  have c: "a * 1024 + b + 0x10000 - 0x10000 = a * 1024 + b" by simp
  have "stringFromCodePoint (a * 1024 + b + 0x10000) =
      [of_nat (a + 0xD800), of_nat (b + 0xDC00)]"
    unfolding stringFromCodePoint_def Let_def by (simp only: big if_False c d)
  also have "\<dots> = [of_nat (unat h), of_nat (unat l)]" by (simp only: ab)
  also have "\<dots> = [h, l]" by simp
  finally show ?thesis by (simp only: a_def b_def)
qed

lemma isChar_cases:
  assumes "isChar c"
  obtains u where "c = [u]" "\<not> (0xD800 \<le> unat u \<and> unat u \<le> 0xDBFF)"
  | h l where "c = [h, l]" "0xD800 \<le> unat h" "unat h \<le> 0xDBFF" "0xDC00 \<le> unat l" "unat l \<le> 0xDFFF"
  using assms unfolding isChar_def by (auto split: list.splits)

lemma charToCode_defined: "isChar c \<Longrightarrow> \<exists>x. charToCode c = Some x"
  by (erule isChar_cases) (simp_all add: charToCode_single charToCode_pair)

lemma stringFromCodePoint_charToCode:
  assumes "isChar c" "charToCode c = Some x"
  shows "stringFromCodePoint x = c"
  using assms(1)
proof (cases rule: isChar_cases)
  case (1 u)
  then have "x = unat u" using assms(2) by (simp add: charToCode_single)
  then show ?thesis using 1(1) by (simp only: stringFromCodePoint_unat)
next
  case (2 h l)
  then have "x = (unat h - 0xD800) * 1024 + (unat l - 0xDC00) + 0x10000"
    using assms(2) charToCode_pair[of h l] by simp
  then show ?thesis using 2 by (simp only: stringFromCodePoint_pair)
qed

subsection \<open>The diff and the marking loop\<close>

lemma neededLoop_sound:
  "x \<in> set (neededLoop l cs tmp) \<Longrightarrow>
   isSet l x \<and> (\<exists>c\<in>set cs. charToCode c = Some x \<and> \<not> truthy (tmp c))"
proof (induction cs arbitrary: tmp)
  case Nil
  then show ?case by simp
next
  case (Cons c cs)
  show ?case
  proof (cases "charToCode c")
    case None
    then show ?thesis using Cons by auto
  next
    case (Some code)
    show ?thesis
    proof (cases "isSet l code \<and> \<not> truthy (tmp c)")
      case True
      then have "x = code \<or> x \<in> set (neededLoop l cs (tmp(c \<mapsto> 1)))"
        using Cons.prems Some by auto
      then show ?thesis
      proof
        assume "x = code"
        then show ?thesis using True Some by auto
      next
        assume "x \<in> set (neededLoop l cs (tmp(c \<mapsto> 1)))"
        from Cons.IH[OF this] obtain c' where
          c': "isSet l x" "c' \<in> set cs" "charToCode c' = Some x" "\<not> truthy ((tmp(c \<mapsto> 1)) c')"
          by blast
        then have "c' \<noteq> c" by (auto simp: truthy_def)
        then show ?thesis using c' by auto
      qed
    next
      case False
      then have "x \<in> set (neededLoop l cs tmp)" using Cons.prems Some by auto
      from Cons.IH[OF this] show ?thesis by auto
    qed
  qed
qed

lemma neededLoop_complete:
  "c \<in> set cs \<Longrightarrow> charToCode c = Some x \<Longrightarrow> isSet l x \<Longrightarrow> \<not> truthy (tmp c) \<Longrightarrow>
   x \<in> set (neededLoop l cs tmp)"
proof (induction cs arbitrary: tmp)
  case Nil
  then show ?case by simp
next
  case (Cons c' cs)
  show ?case
  proof (cases "c = c'")
    case True
    then show ?thesis using Cons.prems by simp
  next
    case False
    then have in_cs: "c \<in> set cs" using Cons.prems(1) by simp
    have a: "x \<in> set (neededLoop l cs tmp)"
      by (rule Cons.IH[where tmp = tmp, OF in_cs Cons.prems(2) Cons.prems(3) Cons.prems(4)])
    have nt: "\<not> truthy ((tmp(c' \<mapsto> 1)) c)" using False Cons.prems(4) by simp
    have b: "x \<in> set (neededLoop l cs (tmp(c' \<mapsto> 1)))"
      by (rule Cons.IH[where tmp = "tmp(c' \<mapsto> 1)", OF in_cs Cons.prems(2) Cons.prems(3) nt])
    show ?thesis using a b by (simp split: option.splits)
  qed
qed

lemma markLoop_charlist:
  "fst (markLoop codes (cl, toLoad)) k =
     (if k \<in> stringFromCodePoint ` set codes then Some 1 else cl k)"
  by (induction codes arbitrary: cl toLoad) (auto simp: Let_def)


subsection \<open>calcNeededChars, case by case\<close>

lemma assertFails_logs [simp]:
  "assertFails env (addLog a s) = assertFails env s"
  "assertFails env (reportError b s) = assertFails env s"
  "assertFails env (emit ev s) = assertFails env s"
  "assertFails env (s\<lparr>trace := t\<rparr>) = assertFails env s"
  by (simp_all add: assertFails_def addLog_def reportError_def emit_def)

lemma calcNeededChars_empty:
  "charsToLoad s = [] \<Longrightarrow> calcNeededChars env s = (Resolved [], s)"
  by (simp add: calcNeededChars_def resolve_def)

lemma calcNeededChars_pending:
  "charsToLoad s \<noteq> [] \<Longrightarrow> compactCharList s = Pending \<Longrightarrow>
   calcNeededChars env s = (Pending, s)"
  by (simp add: calcNeededChars_def thenP_def thenCatch_def getCompactCharList_def)

lemma calcNeededChars_rejected:
  "charsToLoad s \<noteq> [] \<Longrightarrow> compactCharList s = Rejected e \<Longrightarrow>
   calcNeededChars env s = (Rejected e, reportError REJECTED_GET_COMPACT_CHARLIST s)"
  by (simp add: calcNeededChars_def thenP_def thenCatch_def getCompactCharList_def reject_def)

lemma calcNeededChars_none_needed:
  "charsToLoad s \<noteq> [] \<Longrightarrow> compactCharList s = Resolved cl \<Longrightarrow> neededDiff s cl = [] \<Longrightarrow>
   calcNeededChars env s = (Resolved [], addLog MISS_RATE (addLog MISS_COUNT s))"
  by (simp add: calcNeededChars_def thenP_def thenCatch_def getCompactCharList_def resolve_def
      neededDiff_def Let_def)

lemma calcNeededChars_assert:
  "charsToLoad s \<noteq> [] \<Longrightarrow> compactCharList s = Resolved cl \<Longrightarrow> neededDiff s cl \<noteq> [] \<Longrightarrow>
   assertFails env s \<Longrightarrow>
   calcNeededChars env s = (Rejected AssertionError, addLog MISS_RATE (addLog MISS_COUNT s))"
  by (simp add: calcNeededChars_def thenP_def thenCatch_def getCompactCharList_def resolve_def
      neededDiff_def Let_def)

lemma calcNeededChars_chunk:
  assumes "charsToLoad s \<noteq> []" "compactCharList s = Resolved cl" "neededDiff s cl \<noteq> []"
    "\<not> assertFails env s"
  shows "calcNeededChars env s =
     (Resolved (sort (headChunk (maximumRequestSize s) (fst (obfuscatedCodes env s cl)))),
      (if remainder (maximumRequestSize s) (fst (obfuscatedCodes env s cl)) \<noteq> []
       then emit SetTimeout else id)
        ((addLog MISS_RATE (addLog MISS_COUNT s))
           \<lparr>compactCharList :=
              Resolved (fst (markLoop (headChunk (maximumRequestSize s) (fst (obfuscatedCodes env s cl)))
                               (snd (obfuscatedCodes env s cl), charsToLoad s))),
            charsToLoad :=
              snd (markLoop (headChunk (maximumRequestSize s) (fst (obfuscatedCodes env s cl)))
                     (snd (obfuscatedCodes env s cl), charsToLoad s))\<rparr>))"
  using assms
  by (simp add: calcNeededChars_def thenP_def thenCatch_def getCompactCharList_def resolve_def
      neededDiff_def Let_def obfuscatedCodes_def headChunk_def remainder_def case_prod_beta
      addLog_def emit_def)

subsection \<open>The concrete inputs, evaluated\<close>

lemma foldl_setBit: "foldl setBit bits xs = bits \<union> set xs"
  by (induction xs arbitrary: bits) (auto simp: setBit_def)

lemma loadedFont_fields [simp]:
  "charsToLoad (loadedFont r cps cl wanted) = map (\<lambda>n. (stringFromCodePoint n, 1)) wanted"
  "compactCharList (loadedFont r cps cl wanted) = Resolved cl"
  "loadableCodepoints (loadedFont r cps cl wanted) = set cps"
  "maximumRequestSize (loadedFont r cps cl wanted) = initialMaximumRequestSize r"
  "haveReadFileInfo (loadedFont r cps cl wanted) = True"
  "sha1_fingerprint (loadedFont r cps cl wanted) = ''abc123''"
  "db (loadedFont r cps cl wanted) = storedBase cps cl"
  "trace (loadedFont r cps cl wanted) = []"
  "refetchedCompact (loadedFont r cps cl wanted) = False"
  by (simp_all add: loadedFont_def setFileInfo_def newObj_def foldl_setBit)

lemma assertFails_loadedFont [simp]: "\<not> assertFails env (loadedFont r cps cl wanted)"
  by (simp add: assertFails_def)

lemma unat_of_nat_16: "n < 65536 \<Longrightarrow> unat (of_nat n :: 16 word) = n"
  by (simp add: unat_of_nat take_bit_nat_eq_self)

lemma charToCode_bmp: "n < 0xD800 \<Longrightarrow> charToCode (stringFromCodePoint n) = Some n"
  by (simp add: stringFromCodePoint_def charToCode_def unat_of_nat_16)

lemma stringFromCodePoint_inj_bmp:
  "m < 0xD800 \<Longrightarrow> n < 0xD800 \<Longrightarrow> stringFromCodePoint m = stringFromCodePoint n \<Longrightarrow> m = n"
proof -
  assume a: "m < 0xD800" "n < 0xD800" "stringFromCodePoint m = stringFromCodePoint n"
  have "Some m = charToCode (stringFromCodePoint m)" by (simp only: charToCode_bmp[OF a(1)])
  also have "\<dots> = charToCode (stringFromCodePoint n)" by (simp only: a(3))
  also have "\<dots> = Some n" by (simp only: charToCode_bmp[OF a(2)])
  finally show "m = n" by (simp only: option.inject)
qed

lemma isChar_bmp: "n < 0xD800 \<Longrightarrow> isChar (stringFromCodePoint n)"
  by (simp add: stringFromCodePoint_def isChar_def unat_of_nat_16)

lemma neededLoop_all:
  assumes "\<forall>n\<in>set ns. n < 0xD800 \<and> isSet l n \<and> tmp (stringFromCodePoint n) = None" "distinct ns"
  shows "neededLoop l (map stringFromCodePoint ns) tmp = ns"
  using assms
proof (induction ns arbitrary: tmp)
  case Nil
  then show ?case by simp
next
  case (Cons n ns)
  have n: "n < 0xD800" "isSet l n" "tmp (stringFromCodePoint n) = None" using Cons.prems(1) by simp_all
  have "\<forall>m\<in>set ns. m < 0xD800 \<and> isSet l m \<and> (tmp(stringFromCodePoint n \<mapsto> 1)) (stringFromCodePoint m) = None"
  proof
    fix m assume m: "m \<in> set ns"
    then have "m \<noteq> n" using Cons.prems(2) by auto
    moreover have "m < 0xD800" using Cons.prems(1) m by simp
    ultimately have "stringFromCodePoint m \<noteq> stringFromCodePoint n"
      using stringFromCodePoint_inj_bmp[of m n] n(1) by blast
    then show "m < 0xD800 \<and> isSet l m \<and> (tmp(stringFromCodePoint n \<mapsto> 1)) (stringFromCodePoint m) = None"
      using Cons.prems(1) m by simp
  qed
  moreover have "distinct ns" using Cons.prems(2) by simp
  ultimately have "neededLoop l (map stringFromCodePoint ns) (tmp(stringFromCodePoint n \<mapsto> 1)) = ns"
    by (rule Cons.IH)
  then show ?case using n by (simp add: charToCode_bmp truthy_def)
qed

lemma neededDiff_loadedFont:
  assumes "\<forall>n\<in>set wanted. n < 0xD800 \<and> n \<in> set cps \<and> cl (stringFromCodePoint n) = None"
    "distinct wanted"
  shows "neededDiff (loadedFont r cps cl wanted) cl = wanted"
proof -
  have m: "map fst (map (\<lambda>n. (stringFromCodePoint n, 1::nat)) wanted) = map stringFromCodePoint wanted"
    by (simp add: comp_def)
  have a: "\<forall>n\<in>set wanted. n < 0xD800 \<and> isSet (set cps) n \<and> cl (stringFromCodePoint n) = None"
    using assms(1) by (simp add: isSet_def)
  have "neededDiff (loadedFont r cps cl wanted) cl
      = neededLoop (set cps) (map stringFromCodePoint wanted) cl"
    unfolding neededDiff_def by (simp only: loadedFont_fields m)
  then show ?thesis by (simp only: neededLoop_all[OF a assms(2)])
qed

subsection \<open>What the tries of the loop draw\<close>

lemma obfuscate_try_candidate:
  assumes "codes \<noteq> []"
  shows "obfuscate_try codes l r i (cm, a) =
     (if isSet l (candidate codes r i) \<and> a (stringFromCodePoint (candidate codes r i)) = None
      then (setKey (candidate codes r i) cm, a(stringFromCodePoint (candidate codes r i) \<mapsto> 1))
      else (cm, a))"
  using assms unfolding obfuscate_try_def candidate_def Let_def by simp

lemma set_acceptedDraws_Suc:
  "set (acceptedDraws codes l rnd a (Suc n)) =
     (if acceptable l a (candidate codes (rnd n) n)
      then insert (candidate codes (rnd n) n) (set (acceptedDraws codes l rnd a n))
      else set (acceptedDraws codes l rnd a n))"
  unfolding acceptedDraws_def by auto

lemma set_acceptedDraws_mono:
  "n \<le> m \<Longrightarrow> set (acceptedDraws codes l rnd a n) \<subseteq> set (acceptedDraws codes l rnd a m)"
  unfolding acceptedDraws_def by auto

text \<open>
  The invariant of the loop before try \<open>i\<close>: the keys of \<^verbatim>\<open>code_map\<close> are the codes and
  the acceptable candidates drawn so far, and a character is absent from
  \<^verbatim>\<open>alreadyRequestedChars\<close> iff it was absent at the call and no try has taken it.
\<close>

lemma obfuscate_try_draws:
  assumes ne: "codes \<noteq> []"
    and bmp: "\<forall>j. candidate codes (rnd j) j < 0xD800"
    and keys: "set (fst st) = K \<union> set (acceptedDraws codes l rnd a i)"
    and absent: "\<forall>x<0xD800. (snd st (stringFromCodePoint x) = None) =
        (a (stringFromCodePoint x) = None \<and> x \<notin> set (acceptedDraws codes l rnd a i))"
  shows "set (fst (obfuscate_try codes l (rnd i) i st)) =
        K \<union> set (acceptedDraws codes l rnd a (Suc i)) \<and>
     (\<forall>x<0xD800. (snd (obfuscate_try codes l (rnd i) i st) (stringFromCodePoint x) = None) =
        (a (stringFromCodePoint x) = None \<and> x \<notin> set (acceptedDraws codes l rnd a (Suc i))))"
proof -
  obtain cm b where st: "st = (cm, b)" by (cases st)
  define c where "c = candidate codes (rnd i) i"
  have c: "c < 0xD800" using bmp by (simp add: c_def)
  have bc: "(b (stringFromCodePoint c) = None) =
      (a (stringFromCodePoint c) = None \<and> c \<notin> set (acceptedDraws codes l rnd a i))"
    using absent c by (simp add: st)
  show ?thesis
  proof (cases "isSet l c \<and> b (stringFromCodePoint c) = None")
    case True
    then have acc: "acceptable l a c" and new: "c \<notin> set (acceptedDraws codes l rnd a i)"
      using bc by (simp_all add: acceptable_def)
    have t: "obfuscate_try codes l (rnd i) i st = (setKey c cm, b(stringFromCodePoint c \<mapsto> 1))"
      using True by (simp add: st obfuscate_try_candidate[OF ne] c_def)
    have d: "set (acceptedDraws codes l rnd a (Suc i)) = insert c (set (acceptedDraws codes l rnd a i))"
      using acc by (simp add: set_acceptedDraws_Suc c_def)
    have inj: "\<And>x. x < 0xD800 \<Longrightarrow> (stringFromCodePoint x = stringFromCodePoint c) = (x = c)"
      using stringFromCodePoint_inj_bmp[OF _ c] by blast
    show ?thesis
      unfolding t d using keys absent by (auto simp: st inj)
  next
    case False
    then have t: "obfuscate_try codes l (rnd i) i st = st"
      by (auto simp: st obfuscate_try_candidate[OF ne] c_def)
    have "\<not> acceptable l a c \<or> c \<in> set (acceptedDraws codes l rnd a i)"
      using False bc by (auto simp: acceptable_def)
    then have d: "set (acceptedDraws codes l rnd a (Suc i)) = set (acceptedDraws codes l rnd a i)"
      by (auto simp: set_acceptedDraws_Suc c_def)
    show ?thesis unfolding t d using keys absent by simp
  qed
qed

lemma obfuscate_loop_draws:
  assumes "codes \<noteq> []" "\<forall>j. candidate codes (rnd j) j < 0xD800"
    "set (fst st) = K \<union> set (acceptedDraws codes l rnd a i)"
    "\<forall>x<0xD800. (snd st (stringFromCodePoint x) = None) =
        (a (stringFromCodePoint x) = None \<and> x \<notin> set (acceptedDraws codes l rnd a i))"
  shows "\<exists>n. n \<le> max i m \<and>
     (t \<le> length (fst (obfuscate_loop codes l rnd t m i st)) \<or> m \<le> n) \<and>
     set (fst (obfuscate_loop codes l rnd t m i st)) = K \<union> set (acceptedDraws codes l rnd a n)"
  using assms
proof (induction codes l rnd t m i st rule: obfuscate_loop.induct)
  case (1 codes l rnd t m i st)
  show ?case
  proof (cases "length (fst st) < t \<and> i < m")
    case True
    then have c: "length (objectKeys (fst st)) < t \<and> i < m" by simp
    from obfuscate_try_draws[OF 1(2) 1(3) 1(4) 1(5)]
    have k: "set (fst (obfuscate_try codes l (rnd i) i st)) =
        K \<union> set (acceptedDraws codes l rnd a (Suc i))"
      and ab: "\<forall>x<0xD800. (snd (obfuscate_try codes l (rnd i) i st) (stringFromCodePoint x) = None) =
        (a (stringFromCodePoint x) = None \<and> x \<notin> set (acceptedDraws codes l rnd a (Suc i)))"
      by blast+
    from 1(1)[OF c 1(2) 1(3)] k ab
    obtain n where n: "n \<le> max (Suc i) m"
      "t \<le> length (fst (obfuscate_loop codes l rnd t m (Suc i) (obfuscate_try codes l (rnd i) i st)))
         \<or> m \<le> n"
      "set (fst (obfuscate_loop codes l rnd t m (Suc i) (obfuscate_try codes l (rnd i) i st))) =
         K \<union> set (acceptedDraws codes l rnd a n)"
      by auto
    have eq: "obfuscate_loop codes l rnd t m i st =
        obfuscate_loop codes l rnd t m (Suc i) (obfuscate_try codes l (rnd i) i st)"
      using True by (intro obfuscate_loop_step) simp_all
    have "n \<le> max i m" using n(1) True by simp
    then show ?thesis
      unfolding eq using n(2,3) by (intro exI[of _ n]) simp
  next
    case False
    then have eq: "obfuscate_loop codes l rnd t m i st = st"
      by (rule obfuscate_loop_stop)
    show ?thesis
      unfolding eq using False 1(4) by (intro exI[of _ i]) auto
  qed
qed

text \<open>
  With fewer than the minimum of codes, the candidates below the surrogates: the loop
  stops after some number \<open>n\<close> of tries, with the target length reached or all its tries
  made, and the result holds the codes and the acceptable candidates of these \<open>n\<close> tries.
\<close>

lemma possibly_obfuscate_stops:
  assumes ne: "codes \<noteq> []" and len: "length codes < 20"
    and bmp: "\<forall>j. candidate codes (rnd j) j < 0xD800"
  shows "\<exists>n\<le>(20 - length codes) * 10 + 100.
     (20 \<le> length (fst (possibly_obfuscate False rnd codes a l)) \<or>
      n = (20 - length codes) * 10 + 100) \<and>
     set (fst (possibly_obfuscate False rnd codes a l)) =
       set codes \<union> set (acceptedDraws codes l rnd a n)"
proof -
  let ?m = "(20 - length codes) * 10 + 100"
  let ?st0 = "(foldl (\<lambda>m code. setKey code m) [] codes, a)"
  let ?res = "fst (possibly_obfuscate False rnd codes a l)"
  have on: "\<not> False" "length codes < MINIMUM_NON_OBFUSCATION_LENGTH"
    using len by (simp_all add: MINIMUM_NON_OBFUSCATION_LENGTH_def)
  have res: "?res = objectKeys (fst (obfuscate_loop codes l rnd 20 ?m 0 ?st0))"
    by (simp add: possibly_obfuscate_on[OF on])
  have k0: "set (fst ?st0) = set codes \<union> set (acceptedDraws codes l rnd a 0)"
    by (simp add: set_foldl_setKey acceptedDraws_def)
  have a0: "\<forall>x<0xD800. (snd ?st0 (stringFromCodePoint x) = None) =
      (a (stringFromCodePoint x) = None \<and> x \<notin> set (acceptedDraws codes l rnd a 0))"
    by (simp add: acceptedDraws_def)
  have "\<exists>n. n \<le> ?m \<and>
     (20 \<le> length (fst (obfuscate_loop codes l rnd 20 ?m 0 ?st0)) \<or> ?m \<le> n) \<and>
     set (fst (obfuscate_loop codes l rnd 20 ?m 0 ?st0)) =
       set codes \<union> set (acceptedDraws codes l rnd a n)"
    using obfuscate_loop_draws[where t = 20 and m = ?m, OF ne bmp k0 a0] by simp
  then obtain n where n: "n \<le> ?m"
    "20 \<le> length (fst (obfuscate_loop codes l rnd 20 ?m 0 ?st0)) \<or> ?m \<le> n"
    "set (fst (obfuscate_loop codes l rnd 20 ?m 0 ?st0)) =
       set codes \<union> set (acceptedDraws codes l rnd a n)"
    by blast
  show ?thesis
    using n unfolding res by (intro exI[of _ n]) auto
qed

lemma possibly_obfuscate_drawn:
  assumes "codes \<noteq> []" "length codes < 20" "\<forall>j. candidate codes (rnd j) j < 0xD800"
  shows "set (fst (possibly_obfuscate False rnd codes a l)) \<subseteq>
     set codes \<union> set (acceptedDraws codes l rnd a ((20 - length codes) * 10 + 100))"
proof -
  from possibly_obfuscate_stops[OF assms, of a l]
  obtain n where n: "n \<le> (20 - length codes) * 10 + 100"
    "set (fst (possibly_obfuscate False rnd codes a l)) =
       set codes \<union> set (acceptedDraws codes l rnd a n)"
    by blast
  show ?thesis
    unfolding n(2) using set_acceptedDraws_mono[OF n(1), of codes l rnd a] by blast
qed

text \<open>
  The length of the result is the number of the codes and of the acceptable candidates
  that the tries draw, up to the target length.
\<close>

lemma possibly_obfuscate_draws:
  assumes d: "distinct codes" and ne: "codes \<noteq> []" and len: "length codes < 20"
    and bmp: "\<forall>j. candidate codes (rnd j) j < 0xD800"
  shows "length (fst (possibly_obfuscate False rnd codes a l)) =
     min 20 (card (set codes \<union> set (acceptedDraws codes l rnd a ((20 - length codes) * 10 + 100))))"
proof -
  let ?m = "(20 - length codes) * 10 + 100"
  let ?res = "fst (possibly_obfuscate False rnd codes a l)"
  from possibly_obfuscate_stops[OF ne len bmp, of a l]
  obtain n where n: "n \<le> ?m" "20 \<le> length ?res \<or> n = ?m"
    "set ?res = set codes \<union> set (acceptedDraws codes l rnd a n)"
    by blast
  have dist: "distinct ?res" using d by (rule possibly_obfuscate_distinct)
  have le: "length ?res \<le> 20"
    using possibly_obfuscate_length[of False rnd codes a l] len by simp
  have card_res: "length ?res = card (set codes \<union> set (acceptedDraws codes l rnd a n))"
    using dist n(3) distinct_card[of ?res] by simp
  from n(2) show ?thesis
  proof
    assume "20 \<le> length ?res"
    then have full: "length ?res = 20" using le by simp
    have "set codes \<union> set (acceptedDraws codes l rnd a n)
        \<subseteq> set codes \<union> set (acceptedDraws codes l rnd a ?m)"
      using set_acceptedDraws_mono[OF n(1), of codes l rnd a] by blast
    then have "card (set codes \<union> set (acceptedDraws codes l rnd a n))
        \<le> card (set codes \<union> set (acceptedDraws codes l rnd a ?m))"
      by (intro card_mono) simp_all
    then show ?thesis using full card_res by simp
  next
    assume "n = ?m"
    then show ?thesis using card_res le by simp
  qed
qed

lemma candidate_single: "candidate [65] r i = r mod 194"
  unfolding candidate_def Let_def OBFUSCATION_RANGE_def floorUniformRandom_def by simp

lemma acceptedDraws_count: "set (acceptedDraws [65] latin rndCount noChars 290) = {0..<194}"
proof
  show "set (acceptedDraws [65] latin rndCount noChars 290) \<subseteq> {0..<194}"
    by (auto simp: acceptedDraws_def candidate_single rndCount_def)
  show "{0..<194} \<subseteq> set (acceptedDraws [65] latin rndCount noChars 290)"
  proof
    fix x :: nat
    assume "x \<in> {0..<194}"
    then have x: "x < 194" by simp
    then have "x = candidate [65] (rndCount x) x" by (simp add: candidate_single rndCount_def)
    moreover have "x \<in> set [0..<290]" using x by simp
    ultimately have "x \<in> set (map (\<lambda>i. candidate [65] (rndCount i) i) [0..<290])"
      by (simp only: set_map) (rule image_eqI)
    moreover have "acceptable latin noChars x"
      using x by (simp add: acceptable_def isSet_def latin_def noChars_def)
    ultimately show "x \<in> set (acceptedDraws [65] latin rndCount noChars 290)"
      by (simp only: acceptedDraws_def set_filter) simp
  qed
qed

lemma acceptedDraws_B: "set (acceptedDraws [65] latin rndB noChars 290) = {66}"
proof -
  have "(\<lambda>i::nat. 66::nat) ` {0..<290} = {66}" by (rule image_constant[of 0]) simp
  then show ?thesis
    by (simp add: acceptedDraws_def candidate_single rndB_def acceptable_def isSet_def latin_def
        noChars_def)
qed

subsection \<open>What calcNeededChars resolves with\<close>

lemma set_headChunk: "set (headChunk limit codes) \<subseteq> set codes"
  unfolding headChunk_def by (auto dest: in_set_takeD)

lemma calcNeededChars_resolved_cases:
  assumes "compactCharList s = Resolved cl" "fst (calcNeededChars env s) = Resolved codes"
  shows "codes = [] \<or>
     (charsToLoad s \<noteq> [] \<and> neededDiff s cl \<noteq> [] \<and> \<not> assertFails env s \<and>
      codes = sort (headChunk (maximumRequestSize s) (fst (obfuscatedCodes env s cl))))"
proof (cases "charsToLoad s = []")
  case True
  then show ?thesis using assms(2) by (simp add: calcNeededChars_empty)
next
  case ne: False
  show ?thesis
  proof (cases "neededDiff s cl = []")
    case True
    then show ?thesis using assms ne by (simp add: calcNeededChars_none_needed)
  next
    case nd: False
    show ?thesis
    proof (cases "assertFails env s")
      case True
      then show ?thesis using assms ne nd by (simp add: calcNeededChars_assert)
    next
      case False
      then show ?thesis using assms(2) ne nd
        by (simp add: calcNeededChars_chunk[OF ne assms(1) nd False])
    qed
  qed
qed

lemma obfuscatedCodes_element:
  assumes "x \<in> set (fst (obfuscatedCodes env s cl))"
  shows "x \<in> set (neededDiff s cl) \<or>
     (isSet (loadableCodepoints s) x \<and> cl (stringFromCodePoint x) = None \<and>
      snd (obfuscatedCodes env s cl) (stringFromCodePoint x) = Some 1)"
  using possibly_obfuscate_element[OF assms[unfolded obfuscatedCodes_def]]
  unfolding obfuscatedCodes_def neededDiff_def isSet_def by blast

lemma neededDiff_element:
  assumes "x \<in> set (neededDiff s cl)"
  shows "isSet (loadableCodepoints s) x \<and>
     (\<exists>c\<in>fst ` set (charsToLoad s). charToCode c = Some x \<and> \<not> truthy (cl c))"
  using neededLoop_sound[OF assms[unfolded neededDiff_def]] by simp

lemma obfuscatedCodes_off:
  "noObfuscate env \<or> 20 \<le> length (neededDiff s cl) \<Longrightarrow>
   obfuscatedCodes env s cl = (neededDiff s cl, cl)"
  unfolding obfuscatedCodes_def neededDiff_def
  by (rule possibly_obfuscate_off) (simp add: MINIMUM_NON_OBFUSCATION_LENGTH_def)

lemma calcNeededChars_plain:
  assumes "charsToLoad s \<noteq> []" "compactCharList s = Resolved cl" "neededDiff s cl \<noteq> []"
    "\<not> assertFails env s" "noObfuscate env \<or> 20 \<le> length (neededDiff s cl)"
  shows "fst (calcNeededChars env s) = Resolved (sort (headChunk (maximumRequestSize s) (neededDiff s cl)))"
  by (simp add: calcNeededChars_chunk[OF assms(1-4)] obfuscatedCodes_off[OF assms(5)])

subsection \<open>Runs of promise chains\<close>

lemma runI:
  assumes "\<And>s. compactCharList s \<noteq> Pending \<Longrightarrow>
     compactCharList (snd (p s)) \<noteq> Pending \<and> (\<exists>t. trace (snd (p s)) = trace s @ t \<and> Q (fst (p s)) t)"
  shows "run Q p"
  unfolding run_def using assms by blast

lemma runD:
  assumes "run Q p" "compactCharList s \<noteq> Pending"
  shows "compactCharList (snd (p s)) \<noteq> Pending"
    and "\<exists>t. trace (snd (p s)) = trace s @ t \<and> Q (fst (p s)) t"
  using assms unfolding run_def by blast+

lemma run_weaken:
  assumes "run Q p" "\<And>r t. Q r t \<Longrightarrow> Q' r t"
  shows "run Q' p"
  using assms unfolding run_def by blast




lemma thenP_thenBoth: "thenP p f = thenBoth p f reject"
  by (rule ext) (simp add: thenP_def thenBoth_def reject_def split: prod.splits outcome.splits)




subsection \<open>The collaborators' calls\<close>

lemma trace_emit [simp]: "trace (emit ev s) = trace s @ [ev]"
  by (simp add: emit_def)

lemma emit_frame [simp]:
  "compactCharList (emit ev s) = compactCharList s"
  "db (emit ev s) = db s"
  "neededCodes (emit ev s) = neededCodes s"
  "refetchedCompact (emit ev s) = refetchedCompact s"
  "sha1_fingerprint (emit ev s) = sha1_fingerprint s"
  "haveReadFileInfo (emit ev s) = haveReadFileInfo s"
  "charsToLoad (emit ev s) = charsToLoad s"
  "loadableCodepoints (emit ev s) = loadableCodepoints s"
  "maximumRequestSize (emit ev s) = maximumRequestSize s"
  by (simp_all add: emit_def)

lemma tick_emit [simp]: "tick (emit ev s) = Suc (tick s)"
  by (simp add: tick_def)

lemma call_Inr [simp]: "call c (Inr v) s = (Resolved v, emit (Call c) s)"
  by (simp add: call_def)

lemma call_Inl [simp]: "call c (Inl e) s = (Rejected e, emit (Fault c) (emit (Call c) s))"
  by (simp add: call_def)

lemma isFault_simps [simp]:
  "isFault (Fault c)" "\<not> isFault (Call c)" "\<not> isFault (Report r)" "\<not> isFault (Log l)"
  "\<not> isFault SetTimeout" "\<not> isFault ReleaseLock"
  by (simp_all add: isFault_def)

lemma isReport_simps [simp]:
  "isReport (Report r)" "\<not> isReport (Call c)" "\<not> isReport (Fault c)" "\<not> isReport (Log l)"
  "\<not> isReport SetTimeout" "\<not> isReport ReleaseLock"
  by (simp_all add: isReport_def)

lemma faultsReported_append [simp]:
  "faultsReported exempt (t1 @ t2) =
     ((list_ex isReport t2 \<or> faultsReported exempt t1) \<and> faultsReported exempt t2)"
  by (induction t1) (auto split: event.splits)



lemma settled_append: "settled t1 \<Longrightarrow> settled t2 \<Longrightarrow> settled (t1 @ t2)"
  by (auto simp: settled_def)

lemma settled_report:
  "list_ex isReport t2 \<Longrightarrow> faultsReported swallowed t2 \<Longrightarrow> settled (t1 @ t2)"
  by (auto simp: settled_def)

lemma within_simps [simp]:
  "within inside (Report r)" "within inside (Log l)" "within inside (Fault c)"
  "within False ev"
  "within inside (Call RequestFontBase)" "within inside (Call DeleteDatabase)"
  "within inside (Call OpenIndexedDb)" "within inside (Call GetStores)"
  "within inside (Call PutStores)" "within inside (Call ClearDataStores)"
  "within inside (Call (InjectChars codes))" "within inside (Call SetFont)"
  by (simp_all add: within_def afterFetch_def)

lemma list_all_within_False [simp]: "list_all (within False) t"
  by (induction t) simp_all


lemma run_call:
  assumes "\<And>s. p s = call c (answer s) s"
  shows "run (called c) p"
proof (rule runI)
  fix s :: state
  assume "compactCharList s \<noteq> Pending"
  then show "compactCharList (snd (p s)) \<noteq> Pending \<and>
      (\<exists>t. trace (snd (p s)) = trace s @ t \<and> called c (fst (p s)) t)"
    unfolding assms by (cases "answer s") (simp_all add: called_def)
qed

lemma run_openIndexedDb: "run (called OpenIndexedDb) (Persist_openIndexedDb env)"
  by (rule run_call[where answer = "\<lambda>s. openIndexedDb env (tick s)"])
     (simp add: Persist_openIndexedDb_def)





lemma run_precedingPromise: "run (called PrecedingPromise) (getPrecedingPromise env)"
  by (rule run_call[where answer = "\<lambda>s. precedingPromise env (tick s)"])
     (simp add: getPrecedingPromise_def)

lemma Persist_deleteDatabase_cases:
  "deleteDatabase env (tick s) = Inr u \<Longrightarrow>
   Persist_deleteDatabase env s = (Resolved u, (emit (Call DeleteDatabase) s)\<lparr>db := NoDatabase\<rparr>)"
  "deleteDatabase env (tick s) = Inl e \<Longrightarrow>
   Persist_deleteDatabase env s = (Rejected e, emit (Fault DeleteDatabase) (emit (Call DeleteDatabase) s))"
  by (simp_all add: Persist_deleteDatabase_def)


lemma CompactCff_clearDataStores_cases:
  "clearDataStores env (tick s) = Inr u \<Longrightarrow>
   CompactCff_clearDataStores env s = (Resolved u, (emit (Call ClearDataStores) s)\<lparr>db := EmptyStores\<rparr>)"
  "clearDataStores env (tick s) = Inl e \<Longrightarrow>
   CompactCff_clearDataStores env s
     = (Rejected e, emit (Fault ClearDataStores) (emit (Call ClearDataStores) s))"
  by (simp_all add: CompactCff_clearDataStores_def)


lemma Persist_getMetadata_cases:
  "getStores env (tick s) = Inr u \<Longrightarrow>
   Persist_getMetadata env s =
     (Resolved (case db s of Stores values \<Rightarrow> Some (storedMetadata values) | _ \<Rightarrow> None),
      emit (Call GetStores) s)"
  "getStores env (tick s) = Inl e \<Longrightarrow>
   Persist_getMetadata env s = (Rejected e, emit (Fault GetStores) (emit (Call GetStores) s))"
  by (simp_all add: Persist_getMetadata_def)

lemma run_getMetadata: "run (called GetStores) (Persist_getMetadata env)"
proof (rule runI)
  fix s :: state
  assume "compactCharList s \<noteq> Pending"
  then show "compactCharList (snd (Persist_getMetadata env s)) \<noteq> Pending \<and>
      (\<exists>t. trace (snd (Persist_getMetadata env s)) = trace s @ t \<and>
           called GetStores (fst (Persist_getMetadata env s)) t)"
    by (cases "getStores env (tick s)") (simp_all add: Persist_getMetadata_cases called_def)
qed

lemma Persist_putStores_cases:
  "putStores env (tick s) = Inr u \<Longrightarrow>
   Persist_putStores env newValues s =
     (Resolved newValues, (emit (Call PutStores) s)\<lparr>db := Stores newValues\<rparr>)"
  "putStores env (tick s) = Inl e \<Longrightarrow>
   Persist_putStores env newValues s = (Rejected e, emit (Fault PutStores) (emit (Call PutStores) s))"
  by (simp_all add: Persist_putStores_def)

lemma run_putStores: "run (called PutStores) (Persist_putStores env newValues)"
proof (rule runI)
  fix s :: state
  assume "compactCharList s \<noteq> Pending"
  then show "compactCharList (snd (Persist_putStores env newValues s)) \<noteq> Pending \<and>
      (\<exists>t. trace (snd (Persist_putStores env newValues s)) = trace s @ t \<and>
           called PutStores (fst (Persist_putStores env newValues s)) t)"
    by (cases "putStores env (tick s)") (simp_all add: Persist_putStores_cases called_def)
qed

subsection \<open>fetchChars, case by case\<close>

lemma reportError_frame [simp]:
  "trace (reportError n s) = trace s @ [Report (''EIF'' @ n)]"
  "tick (reportError n s) = Suc (tick s)"
  "compactCharList (reportError n s) = compactCharList s"
  "db (reportError n s) = db s"
  "neededCodes (reportError n s) = neededCodes s"
  "refetchedCompact (reportError n s) = refetchedCompact s"
  "sha1_fingerprint (reportError n s) = sha1_fingerprint s"
  "haveReadFileInfo (reportError n s) = haveReadFileInfo s"
  by (simp_all add: reportError_def)

lemma addLog_frame [simp]:
  "trace (addLog n s) = trace s @ [Log n]"
  "tick (addLog n s) = Suc (tick s)"
  "compactCharList (addLog n s) = compactCharList s"
  "db (addLog n s) = db s"
  "neededCodes (addLog n s) = neededCodes s"
  "refetchedCompact (addLog n s) = refetchedCompact s"
  "sha1_fingerprint (addLog n s) = sha1_fingerprint s"
  "haveReadFileInfo (addLog n s) = haveReadFileInfo s"
  by (simp_all add: addLog_def)

lemma dropDb_cases:
  "deleteDatabase env (tick s) = Inr u \<Longrightarrow>
   dropDb env s = (Resolved u, (emit (Call DeleteDatabase) s)\<lparr>db := NoDatabase\<rparr>)"
  "deleteDatabase env (tick s) = Inl e \<Longrightarrow>
   dropDb env s =
     (Rejected NoReason,
      reportError DELETE_IDB (emit (Fault DeleteDatabase) (emit (Call DeleteDatabase) s)))"
  by (simp_all add: dropDb_def thenCatch_def Persist_deleteDatabase_cases reject_def)

lemma handleFingerprintMismatch_cases:
  "deleteDatabase env (Suc (tick s)) = Inr u \<Longrightarrow>
   handleFingerprintMismatch env s =
     (Rejected (Message ''deleted database''),
      (emit (Call DeleteDatabase) (reportError FINGERPRINT_MISMATCH s))\<lparr>db := NoDatabase\<rparr>)"
  "deleteDatabase env (Suc (tick s)) = Inl e \<Longrightarrow>
   handleFingerprintMismatch env s =
     (Rejected NoReason,
      reportError DELETE_IDB
        (emit (Fault DeleteDatabase) (emit (Call DeleteDatabase) (reportError FINGERPRINT_MISMATCH s))))"
  by (simp_all add: handleFingerprintMismatch_def thenP_def dropDb_cases reject_def)

lemma fetchChars_transport_failure:
  assumes "codes \<noteq> []" "requestCodepoints env (tick s) codes = Inl e"
  shows "fetchChars env codes s =
     handleFingerprintMismatch env
       (emit (Fault (RequestCodepoints codes)) (emit (Call (RequestCodepoints codes)) s))"
  using assms
  by (simp add: fetchChars_def thenCatch_def thenP_def backend_requestCodepoints_def)

lemma fetchChars_mismatch:
  assumes "codes \<noteq> []" "requestCodepoints env (tick s) codes = Inr (Some bundle)"
    "signature bundle \<noteq> sha1_fingerprint s"
  shows "fetchChars env codes s =
     handleFingerprintMismatch env (emit (Call (RequestCodepoints codes)) s)"
  using assms
  by (simp add: fetchChars_def thenCatch_def thenP_def backend_requestCodepoints_def
      checkFingerprint_def reject_def)

lemma fetchChars_null:
  assumes "codes \<noteq> []" "requestCodepoints env (tick s) codes = Inr None"
  shows "fetchChars env codes s = (Resolved None, emit (Call (RequestCodepoints codes)) s)"
  using assms
  by (simp add: fetchChars_def thenCatch_def thenP_def backend_requestCodepoints_def
      checkFingerprint_def resolve_def)


lemma newEvents_append [simp]: "trace s' = trace s @ t \<Longrightarrow> newEvents s s' = t"
  by (simp add: newEvents_def)

subsection \<open>The load cycle around the fetch\<close>

lemma loadCycle_fetch_rejected:
  assumes "\<not> assertFails env s0" "calcNeededChars env s0 = (Resolved codes, s1)" "codes \<noteq> []"
    "fst (fetchChars env codes (s1\<lparr>neededCodes := codes\<rparr>)) = Rejected e"
  shows "loadCycle env s0 = (Resolved (), snd (fetchChars env codes (s1\<lparr>neededCodes := codes\<rparr>)))"
proof -
  obtain s2 where f: "fetchChars env codes (s1\<lparr>neededCodes := codes\<rparr>) = (Rejected e, s2)"
    using assms(4) by (cases "fetchChars env codes (s1\<lparr>neededCodes := codes\<rparr>)") simp
  show ?thesis
    using assms(1,2,3) f
    by (simp add: loadCycle_def thenCatch_def thenP_def thenBoth_def resolve_def)
qed



subsection \<open>What calcNeededChars leaves alone\<close>

lemma calcNeededChars_frame:
  "db (snd (calcNeededChars env s)) = db s \<and>
   sha1_fingerprint (snd (calcNeededChars env s)) = sha1_fingerprint s \<and>
   haveReadFileInfo (snd (calcNeededChars env s)) = haveReadFileInfo s \<and>
   refetchedCompact (snd (calcNeededChars env s)) = refetchedCompact s \<and>
   neededCodes (snd (calcNeededChars env s)) = neededCodes s \<and>
   (compactCharList s \<noteq> Pending \<longrightarrow> compactCharList (snd (calcNeededChars env s)) \<noteq> Pending) \<and>
   (\<exists>t. trace (snd (calcNeededChars env s)) = trace s @ t \<and> \<not> list_ex isFault t \<and>
        (\<forall>c. Call c \<notin> set t))"
proof (cases "charsToLoad s = []")
  case True
  then show ?thesis by (simp add: calcNeededChars_empty)
next
  case ne: False
  show ?thesis
  proof (cases "compactCharList s")
    case Pending
    then show ?thesis using ne by (simp add: calcNeededChars_pending)
  next
    case (Rejected e)
    then show ?thesis using ne by (simp add: calcNeededChars_rejected)
  next
    case (Resolved cl)
    show ?thesis
    proof (cases "neededDiff s cl = []")
      case True
      then show ?thesis using ne Resolved by (simp add: calcNeededChars_none_needed)
    next
      case nd: False
      show ?thesis
      proof (cases "assertFails env s")
        case True
        then show ?thesis using ne Resolved nd by (simp add: calcNeededChars_assert)
      next
        case False
        show ?thesis
          by (simp add: calcNeededChars_chunk[OF ne Resolved nd False] Resolved)
      qed
    qed
  qed
qed

lemma calcNeededChars_settled:
  "compactCharList s = Pending \<Longrightarrow> fst (calcNeededChars env s) \<noteq> Pending \<Longrightarrow>
   charsToLoad s = []"
  by (cases "charsToLoad s = []") (simp_all add: calcNeededChars_pending)


subsection \<open>Saving a new compact font, case by case\<close>

lemma saveNewCompactFont_open_fails:
  assumes "openIndexedDb env (tick s) = Inl e"
  shows "saveNewCompactFont env tableData s =
     (Rejected e, emit (Fault OpenIndexedDb) (emit (Call OpenIndexedDb) s))"
  using assms by (simp add: saveNewCompactFont_def thenP_def Persist_openIndexedDb_def)


lemma saveNewCompactFont_put_fails:
  assumes "openIndexedDb env (tick s) = Inr u" "getStores env (Suc (tick s)) = Inr u'"
    "putStores env (Suc (Suc (tick s))) = Inl e"
  shows "saveNewCompactFont env tableData s =
     (Resolved None,
      emit (Fault PutStores) (emit (Call PutStores) (emit (Call GetStores) (emit (Call OpenIndexedDb) s))))"
  using assms
  by (simp add: saveNewCompactFont_def thenP_def thenBoth_def Persist_openIndexedDb_def
      Persist_getMetadata_cases Persist_putStores_cases resolve_def Let_def)

lemma saveNewCompactFont_written:
  assumes "openIndexedDb env (tick s) = Inr u" "getStores env (Suc (tick s)) = Inr u'"
    "putStores env (Suc (Suc (tick s))) = Inr u''"
  shows "saveNewCompactFont env tableData s =
     (Resolved (Some
        \<lparr>storedFontBytes = sfntFontData tableData,
         storedFileInfo = tableFileInfo tableData,
         storedCharList = tableCharList tableData,
         storedMetadata =
           (case (case db s of Stores values \<Rightarrow> Some (storedMetadata values) | _ \<Rightarrow> None) of
              Some m \<Rightarrow> m | None \<Rightarrow> tableMetadata tableData)\<rparr>),
      (emit (Call PutStores) (emit (Call GetStores) (emit (Call OpenIndexedDb) s)))
        \<lparr>db := Stores
           \<lparr>storedFontBytes = sfntFontData tableData,
            storedFileInfo = tableFileInfo tableData,
            storedCharList = tableCharList tableData,
            storedMetadata =
              (case (case db s of Stores values \<Rightarrow> Some (storedMetadata values) | _ \<Rightarrow> None) of
                 Some m \<Rightarrow> m | None \<Rightarrow> tableMetadata tableData)\<rparr>\<rparr>)"
  using assms
  by (simp add: saveNewCompactFont_def thenP_def thenBoth_def Persist_openIndexedDb_def
      Persist_getMetadata_cases Persist_putStores_cases resolve_def Let_def)


lemma processFontbase_open_fails:
  assumes "decodeAndCompact env bytes = Inr (compactBytes, info)"
    "openIndexedDb env (Suc (tick s)) = Inl e"
  shows "clearDataStores env (Suc (Suc (Suc (Suc (tick s))))) = Inr u \<Longrightarrow>
     processFontbase env bytes s =
       (Rejected e,
        (emit (Call ClearDataStores) (reportError SAVE_NEW_COMPACT
           (emit (Fault OpenIndexedDb) (emit (Call OpenIndexedDb) (addLog URL_GET_BASE s)))))
          \<lparr>db := EmptyStores\<rparr>)"
    and "clearDataStores env (Suc (Suc (Suc (Suc (tick s))))) = Inl e' \<Longrightarrow>
     processFontbase env bytes s =
       (Rejected e',
        emit (Fault ClearDataStores) (emit (Call ClearDataStores) (reportError SAVE_NEW_COMPACT
           (emit (Fault OpenIndexedDb) (emit (Call OpenIndexedDb) (addLog URL_GET_BASE s))))))"
  using assms
  by (simp_all add: processFontbase_def Let_def thenP_def thenCatch_def reject_def
      CompactCff_clearDataStores_cases
      saveNewCompactFont_open_fails[where s = "addLog URL_GET_BASE s"])


lemma processFontbase_put_fails:
  assumes "decodeAndCompact env bytes = Inr (compactBytes, info)"
    "openIndexedDb env (Suc (tick s)) = Inr u" "getStores env (Suc (Suc (tick s))) = Inr u'"
    "putStores env (Suc (Suc (Suc (tick s)))) = Inl e"
  shows "processFontbase env bytes s =
     (Rejected TypeError,
      emit (Fault PutStores) (emit (Call PutStores) (emit (Call GetStores)
        (emit (Call OpenIndexedDb) (addLog URL_GET_BASE s)))))"
  using assms
  by (simp add: processFontbase_def Let_def thenP_def thenCatch_def reject_def
      saveNewCompactFont_put_fails[where s = "addLog URL_GET_BASE s"])

lemma processFontbase_written:
  assumes "decodeAndCompact env bytes = Inr (compactBytes, info)"
    "openIndexedDb env (Suc (tick s)) = Inr u" "getStores env (Suc (Suc (tick s))) = Inr u'"
    "putStores env (Suc (Suc (Suc (tick s)))) = Inr u''"
  shows "fst (processFontbase env bytes s) =
     Resolved \<lparr>fontBytes = compactBytes, charList = Map.empty, workingFileInfo = info\<rparr>"
    and "\<exists>m. db (snd (processFontbase env bytes s)) =
     Stores \<lparr>storedFontBytes = compactBytes, storedFileInfo = info, storedCharList = Map.empty,
             storedMetadata = m\<rparr>"
    and "trace (snd (processFontbase env bytes s)) =
     trace s @ [Log URL_GET_BASE, Call OpenIndexedDb, Call GetStores, Call PutStores]"
    and "compactCharList (snd (processFontbase env bytes s)) = compactCharList s"
  using assms
  by (simp_all add: processFontbase_def Let_def thenP_def thenCatch_def resolve_def
      saveNewCompactFont_written[where s = "addLog URL_GET_BASE s"])

subsection \<open>Runs that account for their faults\<close>





lemma reported_accounted: "run (reported inside) p \<Longrightarrow> run (accounted inside) p"
  by (erule run_weaken) (auto simp: reported_def settled_def accounted_def)








lemma run_cond:
  assumes "run Q p" "run Q q"
  shows "run Q (\<lambda>s. if c s then p s else q s)"
proof (rule runI)
  fix s :: state
  assume s: "compactCharList s \<noteq> Pending"
  show "compactCharList (snd (if c s then p s else q s)) \<noteq> Pending \<and>
      (\<exists>t. trace (snd (if c s then p s else q s)) = trace s @ t \<and>
           Q (fst (if c s then p s else q s)) t)"
    using runD[OF assms(1) s] runD[OF assms(2) s] by (cases "c s") simp_all
qed




subsection \<open>The fetch and the injection account for their faults\<close>





subsection \<open>The injection accounts for its faults\<close>



subsection \<open>Fetching the base again accounts for its faults\<close>



subsection \<open>The load cycle accounts for its faults\<close>






subsection \<open>loadChars resolves, and reports when a collaborator fails\<close>





subsection \<open>Example cycles\<close>

lemma zThenAToT_cycle:
  "neededDiff (loadedFont (Some 20) lowerCase noChars zThenAToT) noChars = zThenAToT"
  "obfuscatedCodes quiet (loadedFont (Some 20) lowerCase noChars zThenAToT) noChars
     = (zThenAToT, noChars)"
  "fst (calcNeededChars quiet (loadedFont (Some 20) lowerCase noChars zThenAToT))
     = Resolved ([97..<116] @ [122])"
proof -
  let ?s = "loadedFont (Some 20) lowerCase noChars zThenAToT"
  show nd: "neededDiff ?s noChars = zThenAToT"
    by (rule neededDiff_loadedFont) (simp_all add: noChars_def zThenAToT_def lowerCase_def)
  have len: "noObfuscate quiet \<or> 20 \<le> length (neededDiff ?s noChars)"
    unfolding nd by (simp add: zThenAToT_def)
  have ne: "neededDiff ?s noChars \<noteq> []" unfolding nd by (simp add: zThenAToT_def)
  show "obfuscatedCodes quiet ?s noChars = (zThenAToT, noChars)"
    using obfuscatedCodes_off[OF len] by (simp only: nd)
  have "mset ([97..<116] @ [122::nat]) = mset (122 # [97..<116])" by simp
  moreover have "sorted ([97..<116] @ [122::nat])" by (simp add: sorted_append)
  ultimately have srt: "sort (122 # [97..<116]) = [97..<116] @ [122::nat]"
    by (rule properties_for_sort)
  have tk: "take 20 zThenAToT = 122 # [97..<116::nat]"
    by (simp add: zThenAToT_def)
  have "fst (calcNeededChars quiet ?s)
      = Resolved (sort (headChunk (maximumRequestSize ?s) (neededDiff ?s noChars)))"
    by (rule calcNeededChars_plain[OF _ _ ne _ len]) (simp_all add: ne[unfolded nd])
  also have "maximumRequestSize ?s = 20" by (simp add: initialMaximumRequestSize_def)
  also have "headChunk 20 (neededDiff ?s noChars) = 122 # [97..<116::nat]"
    unfolding nd headChunk_def using tk by simp
  finally show "fst (calcNeededChars quiet ?s) = Resolved ([97..<116] @ [122])"
    by (simp only: srt)
qed

lemma sort_zThenAToT: "sort zThenAToT = [97..<117] @ [122]"
proof -
  have "mset ([97..<117] @ [122::nat]) = mset zThenAToT" by (simp add: zThenAToT_def)
  moreover have "sorted ([97..<117] @ [122::nat])" by (simp add: sorted_append)
  ultimately show ?thesis by (rule properties_for_sort)
qed

lemma pageState_fields [simp]:
  "charsToLoad pageState = map (\<lambda>n. (stringFromCodePoint n, 1)) zThenAToT"
  "compactCharList pageState = Resolved noChars"
  "maximumRequestSize pageState = 2200"
  "haveReadFileInfo pageState"
  "sha1_fingerprint pageState = ''abc123''"
  "db pageState = storedBase lowerCase noChars"
  "trace pageState = []"
  "refetchedCompact pageState = False"
  by (simp_all add: pageState_def initialMaximumRequestSize_def)

lemma pageState_needed: "neededDiff pageState noChars = zThenAToT"
  unfolding pageState_def
  by (rule neededDiff_loadedFont) (simp_all add: noChars_def zThenAToT_def lowerCase_def)

lemma pageState_calc:
  "fst (calcNeededChars env pageState) = Resolved ([97..<117] @ [122])"
proof -
  have len: "noObfuscate env \<or> 20 \<le> length (neededDiff pageState noChars)"
    unfolding pageState_needed by (simp add: zThenAToT_def)
  have ne: "neededDiff pageState noChars \<noteq> []"
    unfolding pageState_needed by (simp add: zThenAToT_def)
  have "fst (calcNeededChars env pageState)
      = Resolved (sort (headChunk (maximumRequestSize pageState) (neededDiff pageState noChars)))"
    by (rule calcNeededChars_plain[OF _ _ ne _ len])
       (simp_all add: ne[unfolded pageState_needed] assertFails_def)
  also have "headChunk (maximumRequestSize pageState) (neededDiff pageState noChars) = zThenAToT"
    unfolding pageState_needed headChunk_def by (simp add: zThenAToT_def)
  finally show ?thesis by (simp only: sort_zThenAToT)
qed

lemma fetchState_fields [simp]:
  "db (fetchState env) = storedBase lowerCase noChars"
  "sha1_fingerprint (fetchState env) = ''abc123''"
  "haveReadFileInfo (fetchState env)"
  "neededCodes (fetchState env) = [97..<117] @ [122]"
  "refetchedCompact (fetchState env) = False"
  "compactCharList (fetchState env) \<noteq> Pending"
  using calcNeededChars_frame[of env pageState] by (simp_all add: fetchState_def)

lemma fetchState_calc:
  "calcNeededChars env pageState = (Resolved ([97..<117] @ [122]), snd (calcNeededChars env pageState))"
  using pageState_calc[of env] by (cases "calcNeededChars env pageState") simp

subsection \<open>A cycle whose injection fails\<close>

lemma tick_update [simp]:
  "tick (s\<lparr>neededCodes := codes\<rparr>) = tick s"
  "tick (s\<lparr>needToSetFont := b\<rparr>) = tick s"
  by (simp_all add: tick_def)



subsection \<open>The letter A with a store that cannot inject nor delete\<close>




subsection \<open>A sequence longer than the request-size limit\<close>





text \<open>
  The rest of a cycle from its fetch on: the request for the codes comes first, and no
  further request, follow-up or release of the lock comes after it.
\<close>

lemma within_True [simp]: "list_all (within True) t = list_all afterFetch t"
  by (induction t) (simp_all add: within_def)



section \<open>The claims\<close>

text \<open>
  C8. If obfuscation is disabled, or the input sequence has at least
  \<open>MINIMUM_NON_OBFUSCATION_LENGTH\<close> (20) codes, \<open>possibly_obfuscate\<close> returns the input
  sequence unchanged (the same elements in the same order) and leaves
  \<open>alreadyRequestedChars\<close> as it was.
\<close>

theorem possibly_obfuscate_unchanged:
  "noObf \<or> 20 \<le> length codes \<Longrightarrow>
   MINIMUM_NON_OBFUSCATION_LENGTH = 20 \<and>
   possibly_obfuscate noObf rnd codes alreadyRequestedChars loadable = (codes, alreadyRequestedChars)"
  by (simp add: possibly_obfuscate_off MINIMUM_NON_OBFUSCATION_LENGTH_def)

theorem possibly_obfuscate_unchanged_witness:
  "possibly_obfuscate True rndCount [65] noChars latin = ([65], noChars) \<and>
   possibly_obfuscate False rndCount twentyCodes noChars latin = (twentyCodes, noChars)"
proof -
  have h1: "True \<or> 20 \<le> length [65::nat]" by simp
  have h2: "False \<or> 20 \<le> length twentyCodes" by (simp add: twentyCodes_def)
  show ?thesis
    using possibly_obfuscate_unchanged[OF h1, of rndCount noChars latin]
      possibly_obfuscate_unchanged[OF h2, of rndCount noChars latin]
    by simp
qed

text \<open>
  C7, as amended. With obfuscation enabled and the single code 65, \<open>possibly_obfuscate\<close>
  returns a sequence of distinct codepoints that contains 65. A candidate of a try is
  drawn from \<open>0 .. 193\<close>; it is acceptable when it is set in \<open>loadableCodepoints\<close> and its
  character was not in \<open>alreadyRequestedChars\<close> at the time of the call. The length of the
  result is the number of different codepoints among 65 and the acceptable candidates of
  the 290 tries that the loop allows, up to 20: it is 20 when these tries draw 19
  different acceptable decoys other than 65, and when it is less than 20 (it is not
  always at least 20) the result holds 65 and every acceptable candidate of the 290
  tries. Every element lies within \<open>65 - 128 .. 65 + 128\<close> clipped at 0, and every decoy
  (an element other than 65) is an acceptable candidate of one of the 290 tries.
\<close>

theorem possibly_obfuscate_single_code:
  "65 \<in> set (fst (possibly_obfuscate False rnd [65] alreadyRequestedChars loadable)) \<and>
   distinct (fst (possibly_obfuscate False rnd [65] alreadyRequestedChars loadable)) \<and>
   length (fst (possibly_obfuscate False rnd [65] alreadyRequestedChars loadable)) =
     min 20 (card (insert 65 (set (acceptedDraws [65] loadable rnd alreadyRequestedChars 290)))) \<and>
   (length (fst (possibly_obfuscate False rnd [65] alreadyRequestedChars loadable)) < 20 \<longrightarrow>
      set (fst (possibly_obfuscate False rnd [65] alreadyRequestedChars loadable)) =
        insert 65 (set (acceptedDraws [65] loadable rnd alreadyRequestedChars 290))) \<and>
   (\<forall>x \<in> set (fst (possibly_obfuscate False rnd [65] alreadyRequestedChars loadable)).
      max 0 (65 - 128) \<le> int x \<and> int x \<le> 65 + 128 \<and>
      (x \<noteq> 65 \<longrightarrow>
         isSet loadable x \<and> alreadyRequestedChars (stringFromCodePoint x) = None \<and>
         x \<in> set (acceptedDraws [65] loadable rnd alreadyRequestedChars 290)))"
proof (intro conjI ballI impI)
  have bmp: "\<forall>j. candidate [65] (rnd j) j < 0xD800"
  proof
    fix j
    have "rnd j mod 194 < 194" by simp
    then show "candidate [65] (rnd j) j < 0xD800" by (simp add: candidate_single)
  qed
  show "65 \<in> set (fst (possibly_obfuscate False rnd [65] alreadyRequestedChars loadable))"
    using possibly_obfuscate_contains[of "[65]" False rnd alreadyRequestedChars loadable] by simp
  show "distinct (fst (possibly_obfuscate False rnd [65] alreadyRequestedChars loadable))"
    by (rule possibly_obfuscate_distinct) simp
  show "length (fst (possibly_obfuscate False rnd [65] alreadyRequestedChars loadable)) =
     min 20 (card (insert 65 (set (acceptedDraws [65] loadable rnd alreadyRequestedChars 290))))"
    using possibly_obfuscate_draws[of "[65]" rnd alreadyRequestedChars loadable] bmp by simp
  show "set (fst (possibly_obfuscate False rnd [65] alreadyRequestedChars loadable)) =
      insert 65 (set (acceptedDraws [65] loadable rnd alreadyRequestedChars 290))"
    if "length (fst (possibly_obfuscate False rnd [65] alreadyRequestedChars loadable)) < 20"
    using possibly_obfuscate_stops[of "[65]" rnd alreadyRequestedChars loadable] bmp that by auto
  fix x
  assume x: "x \<in> set (fst (possibly_obfuscate False rnd [65] alreadyRequestedChars loadable))"
  from possibly_obfuscate_element[OF x]
  have c: "x = 65 \<or> (x \<in> loadable \<and> alreadyRequestedChars (stringFromCodePoint x) = None \<and> window 65 x)"
    by auto
  have drawn: "x = 65 \<or> x \<in> set (acceptedDraws [65] loadable rnd alreadyRequestedChars 290)"
    using possibly_obfuscate_drawn[of "[65]" rnd alreadyRequestedChars loadable] bmp x by auto
  show "max 0 (65 - 128) \<le> int x" by simp
  show "int x \<le> 65 + 128" using c by (auto simp: window_def)
  show "isSet loadable x" if "x \<noteq> 65"
    using c that by (auto simp: isSet_def)
  show "alreadyRequestedChars (stringFromCodePoint x) = None" if "x \<noteq> 65"
    using c that by auto
  show "x \<in> set (acceptedDraws [65] loadable rnd alreadyRequestedChars 290)" if "x \<noteq> 65"
    using drawn that by auto
qed

theorem possibly_obfuscate_single_code_witness:
  "length (fst (possibly_obfuscate False rndCount [65] noChars latin)) = 20 \<and>
   length (fst (possibly_obfuscate False rndB [65] noChars latin)) = 2 \<and>
   65 \<in> set (fst (possibly_obfuscate False rndB [65] noChars latin)) \<and>
   66 \<in> set (fst (possibly_obfuscate False rndB [65] noChars latin)) \<and>
   int 66 \<le> 65 + 128 \<and> isSet latin 66 \<and> noChars (stringFromCodePoint 66) = None \<and>
   66 \<in> set (acceptedDraws [65] latin rndB noChars 290)"
proof -
  have "fst (obfuscate_try [65] latin (rndB 0) 0 (foldl (\<lambda>m code. setKey code m) [] [65], noChars))
      = [65, 66]"
    by (simp add: obfuscate_try_def Let_def rndB_def floorUniformRandom_def OBFUSCATION_RANGE_def
        isSet_def latin_def noChars_def setKey_def)
  then have b: "66 \<in> set (fst (possibly_obfuscate False rndB [65] noChars latin))"
    using possibly_obfuscate_first_try[of "[65]" latin rndB noChars] by auto
  have many: "card (insert 65 (set (acceptedDraws [65] latin rndCount noChars 290))) = 194"
    by (simp add: acceptedDraws_count insert_absorb)
  have two: "card (insert 65 (set (acceptedDraws [65] latin rndB noChars 290))) = 2"
    by (simp add: acceptedDraws_B)
  note counted = possibly_obfuscate_single_code[of rndCount noChars latin]
  note same = possibly_obfuscate_single_code[of rndB noChars latin]
  from counted have "length (fst (possibly_obfuscate False rndCount [65] noChars latin)) =
      min 20 (card (insert 65 (set (acceptedDraws [65] latin rndCount noChars 290))))"
    by blast
  then have l20: "length (fst (possibly_obfuscate False rndCount [65] noChars latin)) = 20"
    by (simp add: many)
  from same have "length (fst (possibly_obfuscate False rndB [65] noChars latin)) =
      min 20 (card (insert 65 (set (acceptedDraws [65] latin rndB noChars 290))))"
    by blast
  then have l2: "length (fst (possibly_obfuscate False rndB [65] noChars latin)) = 2"
    by (simp add: two)
  from same have a: "65 \<in> set (fst (possibly_obfuscate False rndB [65] noChars latin))"
    by blast
  have d: "(66::nat) \<noteq> 65" by simp
  from same b d have decoy: "isSet latin 66 \<and> noChars (stringFromCodePoint 66) = None \<and>
      66 \<in> set (acceptedDraws [65] latin rndB noChars 290)"
    by blast
  have w: "int 66 \<le> 65 + 128" by simp
  show ?thesis
    using l20 l2 a b w decoy by blast
qed

theorem possibly_obfuscate_single_code_counterexample:
  "length (fst (possibly_obfuscate False rndCount [65] noChars lettersAJ)) < 20"
proof -
  let ?res = "fst (possibly_obfuscate False rndCount [65] noChars lettersAJ)"
  have "set ?res \<subseteq> lettersAJ"
  proof
    fix x assume "x \<in> set ?res"
    from possibly_obfuscate_element[OF this] show "x \<in> lettersAJ"
      by (auto simp: lettersAJ_def)
  qed
  then have "card (set ?res) \<le> card lettersAJ"
    by (intro card_mono) (simp_all add: lettersAJ_def)
  moreover have "distinct ?res" by (rule possibly_obfuscate_distinct) simp
  ultimately have "length ?res \<le> card lettersAJ" by (simp add: distinct_card)
  then show ?thesis by (simp add: lettersAJ_def)
qed

text \<open>
  C1 says that a cycle whose backend call fails in transport ends in failure without
  touching what is persisted. The code does otherwise: \<open>fetchChars\<close> hands every
  rejection of the request, not only a fingerprint's mismatch, to
  \<open>handleFingerprintMismatch\<close>. For the page that asks for 21 letters, with a backend
  that is down: the fetch is rejected, a fingerprint mismatch is reported, and the
  font's database, which held the base, is deleted.
\<close>

theorem transport_failure_drops_database:
  "requestCodepoints backendDown (tick (fetchState backendDown)) ([97..<117] @ [122])
     = Inl (Failure 503) \<and>
   db (fetchState backendDown) = storedBase lowerCase noChars \<and>
   fst (fetchChars backendDown ([97..<117] @ [122]) (fetchState backendDown))
     = Rejected (Message ''deleted database'') \<and>
   newEvents (fetchState backendDown)
       (snd (fetchChars backendDown ([97..<117] @ [122]) (fetchState backendDown)))
     = [Call (RequestCodepoints ([97..<117] @ [122])), Fault (RequestCodepoints ([97..<117] @ [122])),
        Report ''EIF42'', Call DeleteDatabase] \<and>
   db (snd (fetchChars backendDown ([97..<117] @ [122]) (fetchState backendDown))) = NoDatabase \<and>
   loadCycle backendDown pageState
     = (Resolved (), snd (fetchChars backendDown ([97..<117] @ [122]) (fetchState backendDown)))"
proof -
  let ?codes = "[97..<117] @ [122::nat]"
  have h1: "?codes \<noteq> []" by simp
  have h2: "requestCodepoints backendDown (tick (fetchState backendDown)) ?codes = Inl (Failure 503)"
    by (simp add: backendDown_def quiet_def)
  have d: "deleteDatabase backendDown (Suc (tick (emit (Fault (RequestCodepoints ?codes))
      (emit (Call (RequestCodepoints ?codes)) (fetchState backendDown))))) = Inr ()"
    by (simp add: backendDown_def quiet_def)
  have f: "fetchChars backendDown ?codes (fetchState backendDown) =
      (Rejected (Message ''deleted database''),
       (emit (Call DeleteDatabase) (reportError FINGERPRINT_MISMATCH
          (emit (Fault (RequestCodepoints ?codes))
             (emit (Call (RequestCodepoints ?codes)) (fetchState backendDown)))))\<lparr>db := NoDatabase\<rparr>)"
    unfolding fetchChars_transport_failure[OF h1 h2]
    by (rule handleFingerprintMismatch_cases(1)[OF d])
  have a: "\<not> assertFails backendDown pageState" by (simp add: assertFails_def)
  have r: "fst (fetchChars backendDown ?codes ((snd (calcNeededChars backendDown pageState))\<lparr>neededCodes := ?codes\<rparr>))
      = Rejected (Message ''deleted database'')"
    using f unfolding fetchState_def by simp
  have cyc: "loadCycle backendDown pageState
     = (Resolved (), snd (fetchChars backendDown ?codes (fetchState backendDown)))"
    unfolding fetchState_def
    by (rule loadCycle_fetch_rejected[OF a fetchState_calc h1 r])
  show ?thesis
    using h2 cyc unfolding f by (simp add: FINGERPRINT_MISMATCH_def)
qed

text \<open>
  C4. Let every requested character (every key of \<^verbatim>\<open>charsToLoad_\<close>) be a character, a
  single codepoint's string, and let the char list hold the number 1 at every character
  it has, as the source says of it. Then a requested character's codepoint is in the
  diff of \<open>calcNeededChars\<close> if and only if it is set in the loadable codepoints and the
  character is absent from the char list. And no codepoint that \<open>calcNeededChars\<close>
  resolves with is marked present in the char list it was called with, or absent from
  the loadable codepoints.
\<close>

theorem calcNeededChars_diff:
  assumes "\<forall>c \<in> fst ` set (charsToLoad s). isChar c"
    and "\<forall>c v. cl c = Some v \<longrightarrow> v = 1"
  shows "(\<forall>c \<in> fst ` set (charsToLoad s).
            \<exists>x. charToCode c = Some x \<and>
                (x \<in> set (neededDiff s cl) \<longleftrightarrow> isSet (loadableCodepoints s) x \<and> cl c = None)) \<and>
         (compactCharList s = Resolved cl \<longrightarrow>
            (\<forall>codes. fst (calcNeededChars env s) = Resolved codes \<longrightarrow>
               (\<forall>x \<in> set codes.
                  isSet (loadableCodepoints s) x \<and> cl (stringFromCodePoint x) = None)))"
proof (rule conjI)
  show "\<forall>c \<in> fst ` set (charsToLoad s).
            \<exists>x. charToCode c = Some x \<and>
                (x \<in> set (neededDiff s cl) \<longleftrightarrow> isSet (loadableCodepoints s) x \<and> cl c = None)"
  proof
  fix c
  assume c: "c \<in> fst ` set (charsToLoad s)"
  then have ic: "isChar c" using assms(1) by blast
  then obtain x where x: "charToCode c = Some x" using charToCode_defined by blast
  have t: "truthy (cl c) \<longleftrightarrow> cl c \<noteq> None"
    using assms(2) by (cases "cl c") (auto simp: truthy_def)
  have "x \<in> set (neededDiff s cl) \<longleftrightarrow> isSet (loadableCodepoints s) x \<and> cl c = None"
  proof
    assume "x \<in> set (neededDiff s cl)"
    from neededDiff_element[OF this] obtain c' where
      c': "isSet (loadableCodepoints s) x" "c' \<in> fst ` set (charsToLoad s)"
        "charToCode c' = Some x" "\<not> truthy (cl c')"
      by blast
    have "isChar c'" using assms(1) c'(2) by blast
    then have "stringFromCodePoint x = c'" using c'(3) by (rule stringFromCodePoint_charToCode)
    moreover have "stringFromCodePoint x = c" using ic x by (rule stringFromCodePoint_charToCode)
    ultimately have "c' = c" by simp
    then show "isSet (loadableCodepoints s) x \<and> cl c = None" using c' t by simp
  next
    assume a: "isSet (loadableCodepoints s) x \<and> cl c = None"
    have cin: "c \<in> set (map fst (charsToLoad s))" using c by simp
    have nt: "\<not> truthy (cl c)" using a t by simp
    have ld: "isSet (loadableCodepoints s) x" using a by simp
    show "x \<in> set (neededDiff s cl)"
      unfolding neededDiff_def
      by (rule neededLoop_complete[where tmp = cl, OF cin x ld nt])
  qed
  then show "\<exists>x. charToCode c = Some x \<and>
      (x \<in> set (neededDiff s cl) \<longleftrightarrow> isSet (loadableCodepoints s) x \<and> cl c = None)"
    using x by blast
  qed
next
  show "compactCharList s = Resolved cl \<longrightarrow>
            (\<forall>codes. fst (calcNeededChars env s) = Resolved codes \<longrightarrow>
               (\<forall>x \<in> set codes.
                  isSet (loadableCodepoints s) x \<and> cl (stringFromCodePoint x) = None))"
  proof (intro impI allI ballI)
  fix codes x
  assume r: "compactCharList s = Resolved cl" "fst (calcNeededChars env s) = Resolved codes"
    and xin: "x \<in> set codes"
  from calcNeededChars_resolved_cases[OF r] xin
  have "codes = sort (headChunk (maximumRequestSize s) (fst (obfuscatedCodes env s cl)))"
    by auto
  then have "x \<in> set (fst (obfuscatedCodes env s cl))"
    using xin set_headChunk[of "maximumRequestSize s" "fst (obfuscatedCodes env s cl)"] by auto
  from obfuscatedCodes_element[OF this]
  show "isSet (loadableCodepoints s) x \<and> cl (stringFromCodePoint x) = None"
  proof
    assume "x \<in> set (neededDiff s cl)"
    from neededDiff_element[OF this] obtain c' where
      c': "isSet (loadableCodepoints s) x" "c' \<in> fst ` set (charsToLoad s)"
        "charToCode c' = Some x" "\<not> truthy (cl c')"
      by blast
    have "isChar c'" using assms(1) c'(2) by blast
    then have "stringFromCodePoint x = c'" using c'(3) by (rule stringFromCodePoint_charToCode)
    moreover have "cl c' = None"
      using c'(4) assms(2) by (cases "cl c'") (auto simp: truthy_def)
    ultimately show ?thesis using c'(1) by simp
  next
    assume "isSet (loadableCodepoints s) x \<and> cl (stringFromCodePoint x) = None \<and>
      snd (obfuscatedCodes env s cl) (stringFromCodePoint x) = Some 1"
    then show ?thesis by simp
  qed
qed
qed
theorem calcNeededChars_diff_witness:
  "65 \<in> set (neededDiff (loadedFont None [65, 66, 67] hasB [65, 66, 200]) hasB) \<and>
   66 \<notin> set (neededDiff (loadedFont None [65, 66, 67] hasB [65, 66, 200]) hasB) \<and>
   200 \<notin> set (neededDiff (loadedFont None [65, 66, 67] hasB [65, 66, 200]) hasB) \<and>
   fst (calcNeededChars quietPlain (loadedFont None [65, 66, 67] hasB [65, 66, 200])) = Resolved [65] \<and>
   isSet (loadableCodepoints (loadedFont None [65, 66, 67] hasB [65, 66, 200])) 65 \<and>
   hasB (stringFromCodePoint 65) = None"
proof -
  let ?s = "loadedFont None [65, 66, 67] hasB [65, 66, 200]"
  have h1: "\<forall>c \<in> fst ` set (charsToLoad ?s). isChar c"
    by (simp add: isChar_bmp)
  have h2: "\<forall>c v. hasB c = Some v \<longrightarrow> v = 1"
    by (simp add: hasB_def)
  have codes: "charToCode (stringFromCodePoint 65) = Some 65"
    "charToCode (stringFromCodePoint 66) = Some 66"
    "charToCode (stringFromCodePoint 200) = Some 200"
    by (simp_all add: charToCode_bmp)
  have cl: "hasB (stringFromCodePoint 65) = None" "hasB (stringFromCodePoint 66) = Some 1"
    by (simp_all add: hasB_def stringFromCodePoint_def)
  have nd: "neededDiff ?s hasB = [65]"
    by (simp add: neededDiff_def codes cl isSet_def truthy_def)
  have "fst (calcNeededChars quietPlain ?s)
      = Resolved (sort (headChunk (maximumRequestSize ?s) (neededDiff ?s hasB)))"
    by (rule calcNeededChars_plain) (simp_all add: nd quietPlain_def quiet_def)
  then have res: "fst (calcNeededChars quietPlain ?s) = Resolved [65]"
    by (simp add: nd headChunk_def initialMaximumRequestSize_def)
  note T = calcNeededChars_diff[OF h1 h2, of quietPlain]
  have t1: "\<forall>c \<in> fst ` set (charsToLoad ?s).
            \<exists>x. charToCode c = Some x \<and>
                (x \<in> set (neededDiff ?s hasB) \<longleftrightarrow> isSet (loadableCodepoints ?s) x \<and> hasB c = None)"
    by (rule T[THEN conjunct1])
  have r: "compactCharList ?s = Resolved hasB" by simp
  have t2: "\<forall>x \<in> set [65]. isSet (loadableCodepoints ?s) x \<and> hasB (stringFromCodePoint x) = None"
    using T[THEN conjunct2] r res by blast
  have a: "65 \<in> set (neededDiff ?s hasB)"
    and b: "66 \<notin> set (neededDiff ?s hasB)"
    and c: "200 \<notin> set (neededDiff ?s hasB)"
    using t1 by (simp_all add: codes cl isSet_def)
  show ?thesis using a b c res t2 by simp
qed

text \<open>
  C3, as amended. In a load cycle the sequence that the diff and the obfuscation produce
  is split at the request-size limit first, and the head chunk alone is then sorted
  ascending. What \<open>calcNeededChars\<close> resolves with, and so what is sent to the backend,
  consists of the first \<open>maximumRequestSize\<close> codepoints of that sequence, in the order
  the sequence has them (they need not be its numerically smallest), put in ascending
  order.
\<close>

theorem head_chunk_sorted_after_split:
  assumes "compactCharList s = Resolved cl"
    and "fst (calcNeededChars env s) = Resolved codes"
    and "codes \<noteq> []"
  shows "codes = sort (headChunk (maximumRequestSize s) (fst (obfuscatedCodes env s cl))) \<and>
         sorted codes \<and>
         mset codes = mset (headChunk (maximumRequestSize s) (fst (obfuscatedCodes env s cl))) \<and>
         (maximumRequestSize s \<noteq> 0 \<longrightarrow>
            mset codes = mset (take (maximumRequestSize s) (fst (obfuscatedCodes env s cl))))"
proof -
  from calcNeededChars_resolved_cases[OF assms(1,2)] assms(3)
  have c: "codes = sort (headChunk (maximumRequestSize s) (fst (obfuscatedCodes env s cl)))"
    by blast
  then show ?thesis by (simp add: headChunk_def)
qed

theorem head_chunk_sorted_after_split_witness:
  "fst (calcNeededChars quiet (loadedFont (Some 20) lowerCase noChars zThenAToT))
     = Resolved ([97..<116] @ [122]) \<and>
   [97..<116] @ [122]
     = sort (headChunk 20 (fst (obfuscatedCodes quiet
         (loadedFont (Some 20) lowerCase noChars zThenAToT) noChars))) \<and>
   sorted ([97..<116] @ [122::nat])"
proof -
  let ?s = "loadedFont (Some 20) lowerCase noChars zThenAToT"
  have r: "compactCharList ?s = Resolved noChars" by simp
  have ne: "[97..<116] @ [122::nat] \<noteq> []" by simp
  have m: "maximumRequestSize ?s = 20" by (simp add: initialMaximumRequestSize_def)
  show ?thesis
    using head_chunk_sorted_after_split[OF r zThenAToT_cycle(3) ne] zThenAToT_cycle(3)
    unfolding m by blast
qed

theorem head_chunk_sorted_after_split_counterexample:
  "fst (obfuscatedCodes quiet (loadedFont (Some 20) lowerCase noChars zThenAToT) noChars)
     = zThenAToT \<and>
   maximumRequestSize (loadedFont (Some 20) lowerCase noChars zThenAToT) = 20 \<and>
   fst (calcNeededChars quiet (loadedFont (Some 20) lowerCase noChars zThenAToT))
     = Resolved ([97..<116] @ [122]) \<and>
   take 20 (sort zThenAToT) = [97..<117] \<and>
   [97..<116] @ [122] \<noteq> [97..<117::nat]"
proof -
  let ?s = "loadedFont (Some 20) lowerCase noChars zThenAToT"
  have "mset ([97..<117] @ [122::nat]) = mset zThenAToT" by (simp add: zThenAToT_def)
  moreover have "sorted ([97..<117] @ [122::nat])" by (simp add: sorted_append)
  ultimately have "sort zThenAToT = [97..<117] @ [122::nat]"
    by (rule properties_for_sort)
  then have t2: "take 20 (sort zThenAToT) = [97..<117::nat]"
    by simp
  have "122 \<in> set ([97..<116] @ [122::nat])" "122 \<notin> set [97..<117::nat]" by simp_all
  then have diff: "[97..<116] @ [122] \<noteq> [97..<117::nat]" by metis
  have m: "maximumRequestSize ?s = 20" by (simp add: initialMaximumRequestSize_def)
  show ?thesis using zThenAToT_cycle(2,3) t2 diff m by (simp only: fst_conv simp_thms)
qed

text \<open>
  C5. When the backend answers the request of a cycle with a glyph bundle whose signature
  differs from the fingerprint recorded from the font's file info, \<open>fetchChars\<close> reports
  the mismatch, has the persistent store delete the font's database (after which, the
  deletion succeeding, there is no database), and rejects; nothing is injected: the load
  cycle ends in the state the rejected fetch left.
\<close>

theorem fingerprint_mismatch_drops_database:
  assumes "codes \<noteq> []"
    and "requestCodepoints env (tick s) codes = Inr (Some bundle)"
    and "signature bundle \<noteq> sha1_fingerprint s"
  shows "(\<exists>e. fst (fetchChars env codes s) = Rejected e) \<and>
         newEvents s (snd (fetchChars env codes s)) =
           [Call (RequestCodepoints codes), Report ''EIF42'', Call DeleteDatabase] @
           (case deleteDatabase env (tick s + 2) of
              Inr u \<Rightarrow> []
            | Inl e \<Rightarrow> [Fault DeleteDatabase, Report ''EIF44'']) \<and>
         (case deleteDatabase env (tick s + 2) of
            Inr u \<Rightarrow> db (snd (fetchChars env codes s)) = NoDatabase
          | Inl e \<Rightarrow> db (snd (fetchChars env codes s)) = db s) \<and>
         (\<forall>s0 s1. \<not> assertFails env s0 \<and> calcNeededChars env s0 = (Resolved codes, s1) \<and>
                  s = s1\<lparr>neededCodes := codes\<rparr> \<longrightarrow>
                  loadCycle env s0 = (Resolved (), snd (fetchChars env codes s)))"
proof -
  have f: "fetchChars env codes s =
      handleFingerprintMismatch env (emit (Call (RequestCodepoints codes)) s)"
    by (rule fetchChars_mismatch[OF assms])
  have rej: "\<exists>e. fst (fetchChars env codes s) = Rejected e"
    unfolding f
    by (cases "deleteDatabase env (tick s + 2)")
       (simp_all add: handleFingerprintMismatch_cases)
  have "newEvents s (snd (fetchChars env codes s)) =
           [Call (RequestCodepoints codes), Report ''EIF42'', Call DeleteDatabase] @
           (case deleteDatabase env (tick s + 2) of
              Inr u \<Rightarrow> []
            | Inl e \<Rightarrow> [Fault DeleteDatabase, Report ''EIF44''])"
    unfolding f
    by (cases "deleteDatabase env (tick s + 2)")
       (simp_all add: handleFingerprintMismatch_cases FINGERPRINT_MISMATCH_def DELETE_IDB_def)
  moreover have "case deleteDatabase env (tick s + 2) of
            Inr u \<Rightarrow> db (snd (fetchChars env codes s)) = NoDatabase
          | Inl e \<Rightarrow> db (snd (fetchChars env codes s)) = db s"
    unfolding f
    by (cases "deleteDatabase env (tick s + 2)")
       (simp_all add: handleFingerprintMismatch_cases)
  moreover have "\<forall>s0 s1. \<not> assertFails env s0 \<and> calcNeededChars env s0 = (Resolved codes, s1) \<and>
                  s = s1\<lparr>neededCodes := codes\<rparr> \<longrightarrow>
                  loadCycle env s0 = (Resolved (), snd (fetchChars env codes s))"
  proof (intro allI impI)
    fix s0 s1
    assume a: "\<not> assertFails env s0 \<and> calcNeededChars env s0 = (Resolved codes, s1) \<and>
                  s = s1\<lparr>neededCodes := codes\<rparr>"
    from rej obtain e where "fst (fetchChars env codes (s1\<lparr>neededCodes := codes\<rparr>)) = Rejected e"
      using a by auto
    then show "loadCycle env s0 = (Resolved (), snd (fetchChars env codes s))"
      using a loadCycle_fetch_rejected[of env s0 codes s1 e] assms(1) by simp
  qed
  ultimately show ?thesis using rej by blast
qed
theorem fingerprint_mismatch_drops_database_witness:
  "sha1_fingerprint (fetchState staleBackend) = ''abc123'' \<and>
   db (fetchState staleBackend) = storedBase lowerCase noChars \<and>
   fst (fetchChars staleBackend ([97..<117] @ [122]) (fetchState staleBackend))
     = Rejected (Message ''deleted database'') \<and>
   newEvents (fetchState staleBackend)
       (snd (fetchChars staleBackend ([97..<117] @ [122]) (fetchState staleBackend)))
     = [Call (RequestCodepoints ([97..<117] @ [122])), Report ''EIF42'', Call DeleteDatabase] \<and>
   db (snd (fetchChars staleBackend ([97..<117] @ [122]) (fetchState staleBackend))) = NoDatabase \<and>
   loadCycle staleBackend pageState
     = (Resolved (), snd (fetchChars staleBackend ([97..<117] @ [122]) (fetchState staleBackend)))"
proof -
  let ?codes = "[97..<117] @ [122::nat]"
  let ?answer = "\<lparr>glyphCount = length ?codes, signature = ''xyz789''\<rparr>"
  have h1: "?codes \<noteq> []" by simp
  have h2: "requestCodepoints staleBackend (tick (fetchState staleBackend)) ?codes = Inr (Some ?answer)"
    by (simp add: staleBackend_def quiet_def)
  have h3: "signature ?answer \<noteq> sha1_fingerprint (fetchState staleBackend)" by simp
  have d: "deleteDatabase staleBackend (tick (fetchState staleBackend) + 2) = Inr ()"
    by (simp add: staleBackend_def quiet_def)
  have a: "\<not> assertFails staleBackend pageState" by (simp add: assertFails_def)
  note T = fingerprint_mismatch_drops_database[OF h1 h2 h3]
  have ev: "newEvents (fetchState staleBackend)
       (snd (fetchChars staleBackend ?codes (fetchState staleBackend)))
     = [Call (RequestCodepoints ?codes), Report ''EIF42'', Call DeleteDatabase]"
    using T d by simp
  have dbn: "db (snd (fetchChars staleBackend ?codes (fetchState staleBackend))) = NoDatabase"
    using T d by simp
  have cyc: "loadCycle staleBackend pageState
     = (Resolved (), snd (fetchChars staleBackend ?codes (fetchState staleBackend)))"
    using T a fetchState_calc[of staleBackend] unfolding fetchState_def by blast
  have "fetchChars staleBackend ?codes (fetchState staleBackend) =
      handleFingerprintMismatch staleBackend
        (emit (Call (RequestCodepoints ?codes)) (fetchState staleBackend))"
    by (rule fetchChars_mismatch[OF h1 h2 h3])
  then have rej: "fst (fetchChars staleBackend ?codes (fetchState staleBackend))
     = Rejected (Message ''deleted database'')"
    using d by (simp add: handleFingerprintMismatch_cases)
  show ?thesis using ev dbn cyc rej by simp
qed

text \<open>
  C2, as amended. Let the base fetched from the network be decoded and compacted. If the
  write to the persistent store succeeds, \<open>processFontbase\<close> resolves with the font data,
  the file info and the (empty) char list, and the database holds them. If
  \<open>saveNewCompactFont\<close> is rejected because the database cannot be opened, the fault is
  reported (\<open>SAVE_NEW_COMPACT\<close>), the data stores are cleared, and \<open>processFontbase\<close> is
  rejected, with the store's reason once the stores are cleared: it does not return
  the in-memory result.
\<close>

theorem processFontbase_persists_or_rejects:
  assumes "decodeAndCompact env bytes = Inr (compactBytes, info)"
  shows "(openIndexedDb env (tick s + 1) = Inr () \<and> getStores env (tick s + 2) = Inr () \<and>
          putStores env (tick s + 3) = Inr () \<longrightarrow>
            fst (processFontbase env bytes s) =
              Resolved \<lparr>fontBytes = compactBytes, charList = Map.empty, workingFileInfo = info\<rparr> \<and>
            (\<exists>m. db (snd (processFontbase env bytes s)) =
               Stores \<lparr>storedFontBytes = compactBytes, storedFileInfo = info,
                       storedCharList = Map.empty, storedMetadata = m\<rparr>)) \<and>
         (\<forall>e. openIndexedDb env (tick s + 1) = Inl e \<longrightarrow>
            (\<exists>e'. fst (processFontbase env bytes s) = Rejected e') \<and>
            take 5 (newEvents s (snd (processFontbase env bytes s))) =
              [Log ''LIFUB'', Call OpenIndexedDb, Fault OpenIndexedDb, Report ''EIF57'',
               Call ClearDataStores] \<and>
            (clearDataStores env (tick s + 4) = Inr () \<longrightarrow>
               fst (processFontbase env bytes s) = Rejected e \<and>
               db (snd (processFontbase env bytes s)) = EmptyStores))"
proof (intro conjI impI allI)
  assume w: "openIndexedDb env (tick s + 1) = Inr () \<and> getStores env (tick s + 2) = Inr () \<and>
          putStores env (tick s + 3) = Inr ()"
  then have o: "openIndexedDb env (Suc (tick s)) = Inr ()"
    and g: "getStores env (Suc (Suc (tick s))) = Inr ()"
    and p: "putStores env (Suc (Suc (Suc (tick s)))) = Inr ()"
    by (simp_all add: numeral_2_eq_2 numeral_3_eq_3)
  show "fst (processFontbase env bytes s) =
      Resolved \<lparr>fontBytes = compactBytes, charList = Map.empty, workingFileInfo = info\<rparr>"
    by (rule processFontbase_written(1)[OF assms o g p])
  show "\<exists>m. db (snd (processFontbase env bytes s)) =
      Stores \<lparr>storedFontBytes = compactBytes, storedFileInfo = info,
              storedCharList = Map.empty, storedMetadata = m\<rparr>"
    by (rule processFontbase_written(2)[OF assms o g p])
next
  fix e
  assume "openIndexedDb env (tick s + 1) = Inl e"
  then have o: "openIndexedDb env (Suc (tick s)) = Inl e" by simp
  have c4: "tick s + 4 = Suc (Suc (Suc (Suc (tick s))))" by simp
  show "\<exists>e'. fst (processFontbase env bytes s) = Rejected e'"
    by (cases "clearDataStores env (Suc (Suc (Suc (Suc (tick s)))))")
       (simp_all add: processFontbase_open_fails[OF assms o])
  show "take 5 (newEvents s (snd (processFontbase env bytes s))) =
      [Log ''LIFUB'', Call OpenIndexedDb, Fault OpenIndexedDb, Report ''EIF57'', Call ClearDataStores]"
    by (cases "clearDataStores env (Suc (Suc (Suc (Suc (tick s)))))")
       (simp_all add: processFontbase_open_fails[OF assms o] URL_GET_BASE_def SAVE_NEW_COMPACT_def)
  {
    assume "clearDataStores env (tick s + 4) = Inr ()"
    then have c: "clearDataStores env (Suc (Suc (Suc (Suc (tick s))))) = Inr ()"
      by (simp only: c4)
    show "fst (processFontbase env bytes s) = Rejected e"
      by (simp add: processFontbase_open_fails(1)[OF assms o c])
    show "db (snd (processFontbase env bytes s)) = EmptyStores"
      by (simp add: processFontbase_open_fails(1)[OF assms o c])
  }
qed

theorem processFontbase_persists_or_rejects_witness:
  "fst (processFontbase quiet [7, 8, 9] freshObj) =
     Resolved \<lparr>fontBytes = [7, 8, 9], charList = Map.empty,
               workingFileInfo = \<lparr>cmapMapping = [], fi_isTtf = False, fi_sha1_fingerprint = ''abc123''\<rparr>\<rparr> \<and>
   fst (processFontbase storeLocked [7, 8, 9] freshObj) = Rejected (Failure 7) \<and>
   db (snd (processFontbase storeLocked [7, 8, 9] freshObj)) = EmptyStores \<and>
   take 5 (newEvents freshObj (snd (processFontbase storeLocked [7, 8, 9] freshObj))) =
     [Log ''LIFUB'', Call OpenIndexedDb, Fault OpenIndexedDb, Report ''EIF57'', Call ClearDataStores]"
proof -
  let ?info = "\<lparr>cmapMapping = [], fi_isTtf = False, fi_sha1_fingerprint = ''abc123''\<rparr>"
  have d1: "decodeAndCompact quiet [7, 8, 9] = Inr ([7, 8, 9], ?info)" by (simp add: quiet_def)
  have d2: "decodeAndCompact storeLocked [7, 8, 9] = Inr ([7, 8, 9], ?info)"
    by (simp add: storeLocked_def quiet_def)
  have ok: "openIndexedDb quiet (tick freshObj + 1) = Inr () \<and>
      getStores quiet (tick freshObj + 2) = Inr () \<and> putStores quiet (tick freshObj + 3) = Inr ()"
    by (simp add: quiet_def)
  have lk: "openIndexedDb storeLocked (tick freshObj + 1) = Inl (Failure 7)"
    by (simp add: storeLocked_def quiet_def)
  have cl: "clearDataStores storeLocked (tick freshObj + 4) = Inr ()"
    by (simp add: storeLocked_def quiet_def)
  show ?thesis
    using processFontbase_persists_or_rejects[OF d1, of freshObj]
      processFontbase_persists_or_rejects[OF d2, of freshObj] ok lk cl
    by blast
qed

theorem processFontbase_persists_or_rejects_counterexample:
  "decodeAndCompact storeLocked [7, 8, 9] =
     Inr ([7, 8, 9], \<lparr>cmapMapping = [], fi_isTtf = False, fi_sha1_fingerprint = ''abc123''\<rparr>) \<and>
   fst (processFontbase storeLocked [7, 8, 9] freshObj) = Rejected (Failure 7) \<and>
   decodeAndCompact storeFull [7, 8, 9] =
     Inr ([7, 8, 9], \<lparr>cmapMapping = [], fi_isTtf = False, fi_sha1_fingerprint = ''abc123''\<rparr>) \<and>
   fst (processFontbase storeFull [7, 8, 9] freshObj) = Rejected TypeError \<and>
   newEvents freshObj (snd (processFontbase storeFull [7, 8, 9] freshObj)) =
     [Log ''LIFUB'', Call OpenIndexedDb, Call GetStores, Call PutStores, Fault PutStores]"
proof -
  let ?info = "\<lparr>cmapMapping = [], fi_isTtf = False, fi_sha1_fingerprint = ''abc123''\<rparr>"
  have d1: "decodeAndCompact storeLocked [7, 8, 9] = Inr ([7, 8, 9], ?info)"
    by (simp add: storeLocked_def quiet_def)
  have o1: "openIndexedDb storeLocked (Suc (tick freshObj)) = Inl (Failure 7)"
    by (simp add: storeLocked_def quiet_def)
  have c1: "clearDataStores storeLocked (Suc (Suc (Suc (Suc (tick freshObj))))) = Inr ()"
    by (simp add: storeLocked_def quiet_def)
  have r1: "fst (processFontbase storeLocked [7, 8, 9] freshObj) = Rejected (Failure 7)"
    by (simp only: processFontbase_open_fails(1)[OF d1 o1 c1] fst_conv)
  have d2: "decodeAndCompact storeFull [7, 8, 9] = Inr ([7, 8, 9], ?info)"
    by (simp add: storeFull_def quiet_def)
  have o2: "openIndexedDb storeFull (Suc (tick freshObj)) = Inr ()"
    and g2: "getStores storeFull (Suc (Suc (tick freshObj))) = Inr ()"
    and p2: "putStores storeFull (Suc (Suc (Suc (tick freshObj)))) = Inl (Failure 8)"
    by (simp_all add: storeFull_def quiet_def)
  have r2: "processFontbase storeFull [7, 8, 9] freshObj =
     (Rejected TypeError,
      emit (Fault PutStores) (emit (Call PutStores) (emit (Call GetStores)
        (emit (Call OpenIndexedDb) (addLog URL_GET_BASE freshObj)))))"
    by (rule processFontbase_put_fails[OF d2 o2 g2 p2])
  show ?thesis using d1 r1 d2 unfolding r2 by (simp add: URL_GET_BASE_def)
qed

text \<open>
  C10. \<open>possibly_obfuscate\<close> changes the \<open>alreadyRequestedChars\<close> it is given: every decoy
  codepoint of its result (an element that is not one of the input codes) was absent
  from \<open>alreadyRequestedChars\<close> and has been inserted, as its character and with the
  value 1. \<open>calcNeededChars\<close> hands it the char list itself: in a cycle that has codes to
  load, every decoy is marked present in the char list that \<open>calcNeededChars\<close> leaves,
  also a decoy beyond the head chunk, and \<open>calcNeededChars\<close> has called no collaborator by
  then (nothing has been fetched or injected).
\<close>

theorem decoys_marked_present:
  "(\<forall>x \<in> set (fst (possibly_obfuscate noObf rnd codes alreadyRequestedChars loadable)).
      x \<notin> set codes \<longrightarrow>
        alreadyRequestedChars (stringFromCodePoint x) = None \<and>
        snd (possibly_obfuscate noObf rnd codes alreadyRequestedChars loadable)
          (stringFromCodePoint x) = Some 1) \<and>
   (charsToLoad s \<noteq> [] \<and> compactCharList s = Resolved charlist \<and>
    neededDiff s charlist \<noteq> [] \<and> \<not> assertFails env s \<longrightarrow>
      (\<exists>charlist'.
         compactCharList (snd (calcNeededChars env s)) = Resolved charlist' \<and>
         (\<forall>x \<in> set (fst (possibly_obfuscate (noObfuscate env) (mathRandom env (tick s))
                           (neededDiff s charlist) charlist (loadableCodepoints s))).
            x \<notin> set (neededDiff s charlist) \<longrightarrow>
              charlist (stringFromCodePoint x) = None \<and>
              charlist' (stringFromCodePoint x) = Some 1)) \<and>
      (\<forall>c. Call c \<notin> set (newEvents s (snd (calcNeededChars env s)))))"
proof (rule conjI)
  show "\<forall>x \<in> set (fst (possibly_obfuscate noObf rnd codes alreadyRequestedChars loadable)).
      x \<notin> set codes \<longrightarrow>
        alreadyRequestedChars (stringFromCodePoint x) = None \<and>
        snd (possibly_obfuscate noObf rnd codes alreadyRequestedChars loadable)
          (stringFromCodePoint x) = Some 1"
    using possibly_obfuscate_element[of _ noObf rnd codes alreadyRequestedChars loadable]
    by blast
next
  show "charsToLoad s \<noteq> [] \<and> compactCharList s = Resolved charlist \<and>
    neededDiff s charlist \<noteq> [] \<and> \<not> assertFails env s \<longrightarrow>
      (\<exists>charlist'.
         compactCharList (snd (calcNeededChars env s)) = Resolved charlist' \<and>
         (\<forall>x \<in> set (fst (possibly_obfuscate (noObfuscate env) (mathRandom env (tick s))
                           (neededDiff s charlist) charlist (loadableCodepoints s))).
            x \<notin> set (neededDiff s charlist) \<longrightarrow>
              charlist (stringFromCodePoint x) = None \<and>
              charlist' (stringFromCodePoint x) = Some 1)) \<and>
      (\<forall>c. Call c \<notin> set (newEvents s (snd (calcNeededChars env s))))"
  proof (rule impI)
    assume a: "charsToLoad s \<noteq> [] \<and> compactCharList s = Resolved charlist \<and>
      neededDiff s charlist \<noteq> [] \<and> \<not> assertFails env s"
    then have ne: "charsToLoad s \<noteq> []" and cl: "compactCharList s = Resolved charlist"
      and nd: "neededDiff s charlist \<noteq> []" and na: "\<not> assertFails env s"
      by simp_all
    let ?obf = "possibly_obfuscate (noObfuscate env) (mathRandom env (tick s))
        (neededDiff s charlist) charlist (loadableCodepoints s)"
    let ?head = "headChunk (maximumRequestSize s) (fst ?obf)"
    have obf: "obfuscatedCodes env s charlist = ?obf"
      by (simp add: obfuscatedCodes_def neededDiff_def)
    have left: "compactCharList (snd (calcNeededChars env s)) =
        Resolved (fst (markLoop ?head (snd ?obf, charsToLoad s)))"
      by (simp add: calcNeededChars_chunk[OF ne cl nd na] obf)
    have marked: "\<forall>x \<in> set (fst ?obf). x \<notin> set (neededDiff s charlist) \<longrightarrow>
        charlist (stringFromCodePoint x) = None \<and>
        fst (markLoop ?head (snd ?obf, charsToLoad s)) (stringFromCodePoint x) = Some 1"
    proof (intro ballI impI)
      fix x
      assume x: "x \<in> set (fst ?obf)" and d: "x \<notin> set (neededDiff s charlist)"
      from possibly_obfuscate_element[OF x] d
      have "charlist (stringFromCodePoint x) = None"
        and "snd ?obf (stringFromCodePoint x) = Some 1"
        by blast+
      then show "charlist (stringFromCodePoint x) = None \<and>
          fst (markLoop ?head (snd ?obf, charsToLoad s)) (stringFromCodePoint x) = Some 1"
        by (simp add: markLoop_charlist)
    qed
    obtain t where t: "trace (snd (calcNeededChars env s)) = trace s @ t"
      and calls: "\<forall>c. Call c \<notin> set t"
      using calcNeededChars_frame[of env s] by blast
    have "newEvents s (snd (calcNeededChars env s)) = t"
      using t by (rule newEvents_append)
    then have quiet: "\<forall>c. Call c \<notin> set (newEvents s (snd (calcNeededChars env s)))"
      using calls by simp
    show "(\<exists>charlist'.
         compactCharList (snd (calcNeededChars env s)) = Resolved charlist' \<and>
         (\<forall>x \<in> set (fst ?obf).
            x \<notin> set (neededDiff s charlist) \<longrightarrow>
              charlist (stringFromCodePoint x) = None \<and>
              charlist' (stringFromCodePoint x) = Some 1)) \<and>
      (\<forall>c. Call c \<notin> set (newEvents s (snd (calcNeededChars env s))))"
      using left marked quiet by blast
  qed
qed

theorem decoys_marked_present_witness:
  "66 \<in> set (fst (possibly_obfuscate False rndB [65] noChars {65, 66})) \<and>
   noChars (stringFromCodePoint 66) = None \<and>
   snd (possibly_obfuscate False rndB [65] noChars {65, 66}) (stringFromCodePoint 66) = Some 1 \<and>
   (\<exists>charlist'.
      compactCharList (snd (calcNeededChars quietB letterA)) = Resolved charlist' \<and>
      charlist' (stringFromCodePoint 66) = Some 1) \<and>
   newEvents letterA (snd (calcNeededChars quietB letterA)) = [Log ''LIFMC'', Log ''LIFMR'']"
proof -
  have "fst (obfuscate_try [65] {65, 66} (rndB 0) 0
               (foldl (\<lambda>m code. setKey code m) [] [65], noChars)) = [65, 66]"
    by (simp add: obfuscate_try_def Let_def rndB_def floorUniformRandom_def OBFUSCATION_RANGE_def
        isSet_def noChars_def setKey_def)
  then have b: "66 \<in> set (fst (possibly_obfuscate False rndB [65] noChars {65, 66}))"
    using possibly_obfuscate_first_try[of "[65]" "{65, 66}" rndB noChars] by auto
  have nd: "neededDiff letterA noChars = [65]"
    unfolding letterA_def by (rule neededDiff_loadedFont) (simp_all add: noChars_def)
  have env: "noObfuscate quietB = False" "mathRandom quietB (tick letterA) = rndB"
    by (simp_all add: quietB_def quiet_def)
  have st: "charsToLoad letterA \<noteq> [] \<and> compactCharList letterA = Resolved noChars \<and>
      neededDiff letterA noChars \<noteq> [] \<and> \<not> assertFails quietB letterA"
    by (simp add: nd) (simp add: letterA_def)
  have lc: "loadableCodepoints letterA = {65, 66}"
    by (simp add: letterA_def)
  have len: "length (fst (possibly_obfuscate False rndB [65] noChars {65, 66})) \<le> 2200"
    using possibly_obfuscate_length[of False rndB "[65]" noChars "{65, 66}"] by simp
  have mx: "maximumRequestSize letterA = 2200"
    by (simp add: letterA_def initialMaximumRequestSize_def)
  have oc: "obfuscatedCodes quietB letterA noChars =
      possibly_obfuscate False rndB [65] noChars {65, 66}"
    using nd by (simp add: obfuscatedCodes_def neededDiff_def env lc)
  have st': "charsToLoad letterA \<noteq> []" "compactCharList letterA = Resolved noChars"
    "neededDiff letterA noChars \<noteq> []" "\<not> assertFails quietB letterA"
    using st by simp_all
  have ev: "newEvents letterA (snd (calcNeededChars quietB letterA)) = [Log ''LIFMC'', Log ''LIFMR'']"
    using len
    by (simp add: calcNeededChars_chunk[OF st'] oc mx remainder_def newEvents_def addLog_def
        emit_def MISS_COUNT_def MISS_RATE_def)
  note marks = decoys_marked_present[of False rndB "[65]" noChars "{65, 66}" letterA noChars quietB]
  have d: "66 \<notin> set [65::nat]" by simp
  from marks b d have first: "noChars (stringFromCodePoint 66) = None \<and>
      snd (possibly_obfuscate False rndB [65] noChars {65, 66}) (stringFromCodePoint 66) = Some 1"
    by blast
  from marks st obtain charlist' where
    c1: "compactCharList (snd (calcNeededChars quietB letterA)) = Resolved charlist'" and
    c2: "\<forall>x \<in> set (fst (possibly_obfuscate False rndB [65] noChars {65, 66})).
            x \<notin> set [65] \<longrightarrow> charlist' (stringFromCodePoint x) = Some 1"
    unfolding nd env lc by blast
  from c2 b d have "charlist' (stringFromCodePoint 66) = Some 1" by blast
  with c1 b ev first show ?thesis by blast
qed






end
